theory Spec2Isabelle
  imports Complex_Main "HOL-Library.Monad_Syntax"
begin

unbundle bit_operations_syntax

section \<open>Samples and complex helpers of the butterfly\<close>

text \<open>
  A sample is a \<open>std::complex<T>\<close>. The template parameter \<open>T\<close> is instantiated with
  the ideal reals, so a sample is a HOL \<^typ>\<open>complex\<close> and all arithmetic is exact.
  The direction \<open>D\<close> is the \<open>int\<close> template parameter of \<open>Butterfly\<close> and \<open>Twiddle\<close>:
  \<open>dft\<close> instantiates it with \<open>-1\<close>, \<open>idft\<close> with \<open>1\<close>.
\<close>

definition direction :: "int \<Rightarrow> complex \<Rightarrow> complex" where
  "direction D z =
     (if D > 0 then Complex (- Im z) (Re z) else Complex (Im z) (- Re z))"

definition mul :: "complex \<Rightarrow> complex \<Rightarrow> complex" where
  "mul z w = Complex (Re z * Re w - Im z * Im w) (Im z * Re w + Re z * Im w)"

section \<open>Checked array access and counted iteration\<close>

text \<open>
  Arrays are lists. \<open>operator[]\<close> of \<open>std::array\<close>, \<open>std::vector\<close> and of a raw
  pointer has no defined behaviour out of range, so every access of the model is checked
  and an out-of-range access makes the whole computation \<open>None\<close>.
\<close>

definition rd :: "'a list \<Rightarrow> nat \<Rightarrow> 'a option" where
  "rd xs i = (if i < length xs then Some (xs ! i) else None)"

definition wr :: "nat \<Rightarrow> 'a \<Rightarrow> 'a list \<Rightarrow> 'a list option" where
  "wr i v xs = (if i < length xs then Some (xs[i := v]) else None)"

text \<open>\<open>std::swap(data[i], data[j])\<close>\<close>

definition std_swap :: "nat \<Rightarrow> nat \<Rightarrow> 'a list \<Rightarrow> 'a list option" where
  "std_swap i j xs = do {
     a \<leftarrow> rd xs i;
     b \<leftarrow> rd xs j;
     xs \<leftarrow> wr i b xs;
     wr j a xs
   }"

text \<open>\<open>for (size_t i = lo; i < hi; ++i) body\<close>, threading the state through the body.\<close>

function for_loop :: "nat \<Rightarrow> nat \<Rightarrow> (nat \<Rightarrow> 's \<Rightarrow> 's option) \<Rightarrow> 's \<Rightarrow> 's option" where
  "for_loop i hi body s =
     (if i < hi then
        (case body i s of None \<Rightarrow> None | Some s' \<Rightarrow> for_loop (Suc i) hi body s')
      else Some s)"
  by pat_completeness auto
termination
  by (relation "measure (\<lambda>(i, hi, body, s). hi - i)") auto

declare for_loop.simps [simp del]

section \<open>Twiddle factors\<close>

text \<open>
  \<open>twiddles<T>(a, d, n)\<close>: the vector of \<open>n/4\<close> factors, entry \<open>i\<close> computed from
  \<open>theta = M_PI*2*d/n\<close> and \<open>phi = theta * a * i\<close>.
\<close>

definition twiddles :: "real \<Rightarrow> int \<Rightarrow> nat \<Rightarrow> complex list" where
  "twiddles a d n =
     (let theta = pi * 2 * of_int d / of_nat n
      in map (\<lambda>i. let phi = theta * a * of_nat i in Complex (cos phi) (sin phi))
           [0..<n div 4])"

text \<open>
  The static members \<open>Twiddle<T,D,N>::t1, t2, t3\<close> are arrays of \<open>N/4\<close> samples copied
  from the front of the vectors \<open>twiddles(1,D,N)\<close>, \<open>twiddles(2,D,N)\<close>, \<open>twiddles(3,D,N)\<close>.
\<close>

definition t1 :: "int \<Rightarrow> nat \<Rightarrow> complex list" where
  "t1 D N = take (N div 4) (twiddles 1 D N)"

definition t2 :: "int \<Rightarrow> nat \<Rightarrow> complex list" where
  "t2 D N = take (N div 4) (twiddles 2 D N)"

definition t3 :: "int \<Rightarrow> nat \<Rightarrow> complex list" where
  "t3 D N = take (N div 4) (twiddles 3 D N)"

section \<open>Butterfly mixing\<close>

text \<open>
  \<open>Butterfly<T,D,N>::mix(data)\<close> works on the \<open>N\<close> samples behind the pointer
  \<open>data\<close>. The pointer is modelled by the whole array together with the offset \<open>p\<close> of
  the pointer into it, so \<open>data[i]\<close> is the access at \<open>p + i\<close> and \<open>data + i1\<close> is the
  offset \<open>p + i1\<close>.

  \<open>mix_store\<close> is the tail shared by the index-0 code and the loop body: it forms
  \<open>b0\<close>, \<open>b1\<close> and writes the four outputs.
\<close>

definition mix_store ::
  "int \<Rightarrow> nat \<Rightarrow> nat \<Rightarrow> nat \<Rightarrow> nat \<Rightarrow> complex \<Rightarrow> complex \<Rightarrow> complex \<Rightarrow> complex
     \<Rightarrow> complex list \<Rightarrow> complex list option" where
  "mix_store D i0 i1 i2 i3 a0 a1 a2 a3 data = do {
     let b0 = a1 + a3;
     let b1 = direction D (a1 - a3);
     data \<leftarrow> wr i0 (a0 + a2 + b0) data;
     data \<leftarrow> wr i1 (a0 - a2 + b1) data;
     data \<leftarrow> wr i2 (a0 + a2 - b0) data;
     wr i3 (a0 - a2 - b1) data
   }"

text \<open>Index 0 of the radix-4 mixer: the twiddles are \<open>1\<close> and are not multiplied.\<close>

definition mix_first :: "int \<Rightarrow> nat \<Rightarrow> nat \<Rightarrow> complex list \<Rightarrow> complex list option" where
  "mix_first D N p data = do {
     let N4 = N div 4;
     let i1 = N4;
     let i2 = N4 * 2;
     let i3 = N4 * 3;
     a0 \<leftarrow> rd data (p + 0);
     a2 \<leftarrow> rd data (p + i1);
     a1 \<leftarrow> rd data (p + i2);
     a3 \<leftarrow> rd data (p + i3);
     mix_store D (p + 0) (p + i1) (p + i2) (p + i3) a0 a1 a2 a3 data
   }"

text \<open>The body of the loop over \<open>i0 = 1, ..., N4 - 1\<close>.\<close>

definition mix_step :: "int \<Rightarrow> nat \<Rightarrow> nat \<Rightarrow> nat \<Rightarrow> complex list \<Rightarrow> complex list option" where
  "mix_step D N p i0 data = do {
     let N4 = N div 4;
     let i1 = i0 + N4;
     let i2 = i1 + N4;
     let i3 = i2 + N4;
     a0 \<leftarrow> rd data (p + i0);
     d1 \<leftarrow> rd data (p + i1);
     w2 \<leftarrow> rd (t2 D N) i0;
     let a2 = mul d1 w2;
     d2 \<leftarrow> rd data (p + i2);
     w1 \<leftarrow> rd (t1 D N) i0;
     let a1 = mul d2 w1;
     d3 \<leftarrow> rd data (p + i3);
     w3 \<leftarrow> rd (t3 D N) i0;
     let a3 = mul d3 w3;
     mix_store D (p + i0) (p + i1) (p + i2) (p + i3) a0 a1 a2 a3 data
   }"

text \<open>The combination that follows the four recursive calls.\<close>

definition mix_combine :: "int \<Rightarrow> nat \<Rightarrow> nat \<Rightarrow> complex list \<Rightarrow> complex list option" where
  "mix_combine D N p data = do {
     data \<leftarrow> mix_first D N p data;
     for_loop 1 (N div 4) (mix_step D N p) data
   }"

text \<open>The radix-2 mixer \<open>Butterfly<T,D,2>::mix\<close>.\<close>

definition mix2 :: "nat \<Rightarrow> complex list \<Rightarrow> complex list option" where
  "mix2 p data = do {
     a0 \<leftarrow> rd data (p + 0);
     a1 \<leftarrow> rd data (p + 1);
     data \<leftarrow> wr (p + 0) (a0 + a1) data;
     wr (p + 1) (a0 - a1) data
   }"

text \<open>
  The template recursion. \<open>N = 1\<close> and \<open>N = 2\<close> are the two specialisations. For
  \<open>N = 0\<close> and \<open>N = 3\<close> the primary template would need \<open>Butterfly<T,D,0>\<close>, whose
  instantiation never ends: there is no such program, and the model has no result.
\<close>

function mix :: "int \<Rightarrow> nat \<Rightarrow> nat \<Rightarrow> complex list \<Rightarrow> complex list option" where
  "mix D N p data =
     (if N = 1 then Some data
      else if N = 2 then mix2 p data
      else if N < 4 then None
      else do {
        let N4 = N div 4;
        let i1 = N4;
        let i2 = N4 * 2;
        let i3 = N4 * 3;
        data \<leftarrow> mix D N4 p data;
        data \<leftarrow> mix D N4 (p + i1) data;
        data \<leftarrow> mix D N4 (p + i2) data;
        data \<leftarrow> mix D N4 (p + i3) data;
        mix_combine D N p data
      })"
  by pat_completeness auto
termination
  by (relation "measure (\<lambda>(D, N, p, data). N)") auto

declare mix.simps [simp del]

section \<open>Bit reversal pattern\<close>

text \<open>
  Sizes are \<open>size_t\<close>. All values formed below are bounded by twice the transform
  length, which is the length of an array in memory, so no shift or product wraps and
  the sizes are natural numbers: \<open>m << 2\<close> is \<open>m * 4\<close>, \<open>n >> 1\<close> is \<open>n div 2\<close>.
\<close>

text \<open>The inner loop of \<open>bitpattern\<close>: \<open>l.push_back(l[j] + n)\<close>.\<close>

definition bitpattern_push :: "nat \<Rightarrow> nat \<Rightarrow> nat list \<Rightarrow> nat list option" where
  "bitpattern_push n j l = do { v \<leftarrow> rd l j; Some (l @ [v + n]) }"

function bitpattern_while :: "nat \<Rightarrow> nat \<Rightarrow> nat list \<Rightarrow> nat list option" where
  "bitpattern_while n m l =
     (if m * 4 < n then do {
        let n = n div 2;
        l \<leftarrow> for_loop 0 m (bitpattern_push n) l;
        bitpattern_while n (m * 2) l
      } else Some l)"
  by pat_completeness auto
termination
  by (relation "measure (\<lambda>(n, m, l). n)") auto

declare bitpattern_while.simps [simp del]

definition bitpattern :: "nat \<Rightarrow> bool \<Rightarrow> nat list option" where
  "bitpattern n ispow4 =
     (let n = (n * n) * 2;
          n = (if ispow4 then n * 2 else n)
      in bitpattern_while n 1 [0])"

text \<open>
  \<open>BitReverse<N,ispow4>::pattern\<close> is an array of \<open>N\<close> offsets copied from the front of
  the vector \<open>bitpattern(N, ispow4)\<close>; a shorter vector would be read past its end.
\<close>

definition BitReverse_pattern :: "nat \<Rightarrow> bool \<Rightarrow> nat list option" where
  "BitReverse_pattern N ispow4 = do {
     l \<leftarrow> bitpattern N ispow4;
     if N \<le> length l then Some (take N l) else None
   }"

section \<open>Transform\<close>

text \<open>The \<open>static_assert\<close> of \<open>Transform<T,N>\<close>.\<close>

definition size_ok :: "nat \<Rightarrow> bool" where
  "size_ok N = (N > 1 \<and> \<not> (N AND (N - 1) \<noteq> 0))"

function ispow4_impl :: "nat \<Rightarrow> nat \<Rightarrow> bool" where
  "ispow4_impl n m = (if m * 4 < n then ispow4_impl (n div 2) (m * 2) else m * 4 = n)"
  by pat_completeness auto
termination
  by (relation "measure (\<lambda>(n, m). n)") auto

declare ispow4_impl.simps [simp del]

definition ispow4 :: "nat \<Rightarrow> bool" where
  "ispow4 N = ispow4_impl N 1"

function pattern_size_impl :: "nat \<Rightarrow> nat \<Rightarrow> nat" where
  "pattern_size_impl n m = (if m * 4 < n then pattern_size_impl (n div 2) (m * 2) else m)"
  by pat_completeness auto
termination
  by (relation "measure (\<lambda>(n, m). n)") auto

declare pattern_size_impl.simps [simp del]

definition pattern_size :: "nat \<Rightarrow> nat" where
  "pattern_size N = pattern_size_impl N 1"

text \<open>The member \<open>bit.pattern\<close> of \<open>Transform<T,N>\<close>.\<close>

definition bit_pattern :: "nat \<Rightarrow> nat list option" where
  "bit_pattern N = BitReverse_pattern (pattern_size N) (ispow4 N)"

subsection \<open>In-place reindexing\<close>

text \<open>The body of the inner loop of the power-of-four branch: four swaps.\<close>

definition reindex_swap4 :: "nat list \<Rightarrow> nat \<Rightarrow> nat \<Rightarrow> 'a list \<Rightarrow> 'a list option" where
  "reindex_swap4 pattern k j data = do {
     let m = length pattern;
     let m2 = 2 * m;
     pk \<leftarrow> rd pattern k;
     let j1 = j + pk;
     pj \<leftarrow> rd pattern j;
     let k1 = k + pj;
     data \<leftarrow> std_swap j1 k1 data;
     let j1 = j1 + m;
     let k1 = k1 + m2;
     data \<leftarrow> std_swap j1 k1 data;
     let j1 = j1 + m;
     let k1 = k1 - m;
     data \<leftarrow> std_swap j1 k1 data;
     let j1 = j1 + m;
     let k1 = k1 + m2;
     std_swap j1 k1 data
   }"

text \<open>The body of the outer loop of the power-of-four branch.\<close>

definition reindex_row4 :: "nat list \<Rightarrow> nat \<Rightarrow> 'a list \<Rightarrow> 'a list option" where
  "reindex_row4 pattern k data = do {
     let m = length pattern;
     data \<leftarrow> for_loop 0 k (reindex_swap4 pattern k) data;
     pk \<leftarrow> rd pattern k;
     let j1 = k + m + pk;
     let k1 = j1 + m;
     std_swap j1 k1 data
   }"

text \<open>The body of the inner loop of the other branch: two swaps.\<close>

definition reindex_swap2 :: "nat list \<Rightarrow> nat \<Rightarrow> nat \<Rightarrow> 'a list \<Rightarrow> 'a list option" where
  "reindex_swap2 pattern k j data = do {
     let m = length pattern;
     pk \<leftarrow> rd pattern k;
     let j1 = j + pk;
     pj \<leftarrow> rd pattern j;
     let k1 = k + pj;
     data \<leftarrow> std_swap j1 k1 data;
     let j1 = j1 + m;
     let k1 = k1 + m;
     std_swap j1 k1 data
   }"

definition reindex_row2 :: "nat list \<Rightarrow> nat \<Rightarrow> 'a list \<Rightarrow> 'a list option" where
  "reindex_row2 pattern k data = for_loop 0 k (reindex_swap2 pattern k) data"

definition reindex :: "nat \<Rightarrow> 'a list \<Rightarrow> 'a list option" where
  "reindex N data = do {
     pattern \<leftarrow> bit_pattern N;
     let m = length pattern;
     if ispow4 N then for_loop 0 m (reindex_row4 pattern) data
     else for_loop 1 m (reindex_row2 pattern) data
   }"

subsection \<open>Out-of-place reindexing\<close>

text \<open>
  The out-of-place entry points take two distinct arrays: \<open>in\<close>, which is \<open>const\<close>,
  and \<open>out\<close>. The state of the model holds both.
\<close>

record 'a bufs =
  in_buf :: "'a list"
  out_buf :: "'a list"

text \<open>\<open>out[d] = in[s]\<close>\<close>

definition assign :: "nat \<Rightarrow> nat \<Rightarrow> 'a bufs \<Rightarrow> 'a bufs option" where
  "assign d s b = do {
     v \<leftarrow> rd (in_buf b) s;
     out \<leftarrow> wr d v (out_buf b);
     Some (b\<lparr>out_buf := out\<rparr>)
   }"

definition reindex_copy4 :: "nat list \<Rightarrow> nat \<Rightarrow> nat \<Rightarrow> 'a bufs \<Rightarrow> 'a bufs option" where
  "reindex_copy4 pattern k j b = do {
     let m = length pattern;
     let m2 = 2 * m;
     pk \<leftarrow> rd pattern k;
     let j1 = j + pk;
     pj \<leftarrow> rd pattern j;
     let k1 = k + pj;
     b \<leftarrow> assign j1 k1 b;
     b \<leftarrow> assign k1 j1 b;
     let j1 = j1 + m;
     let k1 = k1 + m2;
     b \<leftarrow> assign j1 k1 b;
     b \<leftarrow> assign k1 j1 b;
     let j1 = j1 + m;
     let k1 = k1 - m;
     b \<leftarrow> assign j1 k1 b;
     b \<leftarrow> assign k1 j1 b;
     let j1 = j1 + m;
     let k1 = k1 + m2;
     b \<leftarrow> assign j1 k1 b;
     assign k1 j1 b
   }"

definition reindex_copy_row4 :: "nat list \<Rightarrow> nat \<Rightarrow> 'a bufs \<Rightarrow> 'a bufs option" where
  "reindex_copy_row4 pattern k b = do {
     let m = length pattern;
     b \<leftarrow> for_loop 0 k (reindex_copy4 pattern k) b;
     pk \<leftarrow> rd pattern k;
     let k1 = k + pk;
     b \<leftarrow> assign k1 k1 b;
     let j1 = k1 + m;
     let k1 = j1 + m;
     b \<leftarrow> assign j1 k1 b;
     b \<leftarrow> assign k1 j1 b;
     let k1 = k1 + m;
     assign k1 k1 b
   }"

definition reindex_copy2 :: "nat list \<Rightarrow> nat \<Rightarrow> nat \<Rightarrow> 'a bufs \<Rightarrow> 'a bufs option" where
  "reindex_copy2 pattern k j b = do {
     let m = length pattern;
     pk \<leftarrow> rd pattern k;
     let j1 = j + pk;
     pj \<leftarrow> rd pattern j;
     let k1 = k + pj;
     b \<leftarrow> assign j1 k1 b;
     b \<leftarrow> assign k1 j1 b;
     let j1 = j1 + m;
     let k1 = k1 + m;
     b \<leftarrow> assign j1 k1 b;
     assign k1 j1 b
   }"

definition reindex_copy_row2 :: "nat list \<Rightarrow> nat \<Rightarrow> 'a bufs \<Rightarrow> 'a bufs option" where
  "reindex_copy_row2 pattern k b = do {
     let m = length pattern;
     b \<leftarrow> for_loop 0 k (reindex_copy2 pattern k) b;
     pk \<leftarrow> rd pattern k;
     let k1 = k + pk;
     b \<leftarrow> assign k1 k1 b;
     assign (k1 + m) (k1 + m) b
   }"

definition reindex_copy :: "nat \<Rightarrow> 'a bufs \<Rightarrow> 'a bufs option" where
  "reindex_copy N b = do {
     pattern \<leftarrow> bit_pattern N;
     let m = length pattern;
     if ispow4 N then for_loop 0 m (reindex_copy_row4 pattern) b
     else do {
       b \<leftarrow> assign 0 0 b;
       b \<leftarrow> assign m m b;
       for_loop 1 m (reindex_copy_row2 pattern) b
     }
   }"

subsection \<open>Entry points\<close>

text \<open>
  \<open>Transform<T,N>\<close> exists only for sizes that pass the \<open>static_assert\<close>; for any
  other size there is no function to call and the model has no result.
\<close>

definition dft :: "nat \<Rightarrow> complex list \<Rightarrow> complex list option" where
  "dft N data =
     (if \<not> size_ok N then None
      else do { data \<leftarrow> reindex N data; mix (- 1) N 0 data })"

definition idft :: "nat \<Rightarrow> complex list \<Rightarrow> complex list option" where
  "idft N data =
     (if \<not> size_ok N then None
      else do { data \<leftarrow> reindex N data; mix 1 N 0 data })"

text \<open>\<open>Butterfly::mix(&out[0])\<close> on the output array of the two-array state.\<close>

definition mix_out :: "int \<Rightarrow> nat \<Rightarrow> complex bufs \<Rightarrow> complex bufs option" where
  "mix_out D N b = do { out \<leftarrow> mix D N 0 (out_buf b); Some (b\<lparr>out_buf := out\<rparr>) }"

definition dft2 :: "nat \<Rightarrow> complex bufs \<Rightarrow> complex bufs option" where
  "dft2 N b =
     (if \<not> size_ok N then None
      else do { b \<leftarrow> reindex_copy N b; mix_out (- 1) N b })"

definition idft2 :: "nat \<Rightarrow> complex bufs \<Rightarrow> complex bufs option" where
  "idft2 N b =
     (if \<not> size_ok N then None
      else do { b \<leftarrow> reindex_copy N b; mix_out 1 N b })"

section \<open>The instance for double at length 2\<close>

text \<open>
  The definitions above instantiate \<open>T\<close> with the reals. The transform of length \<open>2\<close>
  needs no twiddle table and no library function, only the reindexing and one rounded
  addition and subtraction per component, so its instance for \<open>T = double\<close> can be
  written out. A finite double is a real; \<open>double\<close> is taken to be the IEEE 754 binary64
  format with 53 significant bits, and an operation returns its exact result rounded to
  the nearest double, to the one with even significand in a tie.
\<close>












section \<open>Auxiliary definitions for the proofs\<close>

text \<open>
  The four outputs of the radix-4 combination at index \<open>i\<close> of a block of \<open>4 M\<close> samples at
  offset \<open>p\<close>, as a function of the block before the combination, and the invariant of the
  combination loop.
\<close>

definition comb :: "int \<Rightarrow> nat \<Rightarrow> complex \<Rightarrow> complex \<Rightarrow> complex \<Rightarrow> complex \<Rightarrow> complex" where
  "comb D c u0 u1 u2 u3 =
     (if c = 0 then u0 + u2 + (u1 + u3)
      else if c = 1 then u0 - u2 + direction D (u1 - u3)
      else if c = 2 then u0 + u2 - (u1 + u3)
      else u0 - u2 - direction D (u1 - u3))"

definition comb_at :: "int \<Rightarrow> nat \<Rightarrow> nat \<Rightarrow> complex list \<Rightarrow> nat \<Rightarrow> nat \<Rightarrow> complex" where
  "comb_at D M p data c i =
     comb D c (data ! (p + i))
       (mul (data ! (p + 2 * M + i)) (t1 D (4 * M) ! i))
       (mul (data ! (p + M + i)) (t2 D (4 * M) ! i))
       (mul (data ! (p + 3 * M + i)) (t3 D (4 * M) ! i))"

definition comb_inv :: "int \<Rightarrow> nat \<Rightarrow> nat \<Rightarrow> complex list \<Rightarrow> nat \<Rightarrow> complex list \<Rightarrow> bool" where
  "comb_inv D M p data i0 d \<longleftrightarrow>
     length d = length data \<and>
     (\<forall>j. j < p \<or> p + 4 * M \<le> j \<longrightarrow> d ! j = data ! j) \<and>
     (\<forall>i<M.
        d ! (p + i) = (if i < i0 then comb_at D M p data 0 i else data ! (p + i)) \<and>
        d ! (p + M + i) = (if i < i0 then comb_at D M p data 1 i else data ! (p + M + i)) \<and>
        d ! (p + 2 * M + i) = (if i < i0 then comb_at D M p data 2 i else data ! (p + 2 * M + i)) \<and>
        d ! (p + 3 * M + i) = (if i < i0 then comb_at D M p data 3 i else data ! (p + 3 * M + i)))"

text \<open>
  Reversal of the lowest \<open>p\<close> bits of an index: the lowest bit of \<open>n\<close> becomes bit
  \<open>p - 1\<close> of the result.
\<close>

fun brev :: "nat \<Rightarrow> nat \<Rightarrow> nat" where
  "brev 0 n = 0"
| "brev (Suc p) n = 2 ^ p * (n mod 2) + brev p (n div 2)"

text \<open>
  For the analysis of the reindexing an index below \<open>q m m\<close> is split into a low part
  \<open>lo < m\<close>, a middle digit \<open>mid < q\<close> and a high part \<open>hi < m\<close>; \<open>q\<close> is \<open>4\<close> for
  a power of four and \<open>2\<close> otherwise. The reindexing exchanges the low part with the
  reversed high part and reverses the bits of the middle digit. The invariants say which
  triples have reached their final place, given as a predicate on the low part, the
  middle digit and the reversed high part.
\<close>

definition idx :: "nat \<Rightarrow> nat \<Rightarrow> nat \<Rightarrow> nat \<Rightarrow> nat \<Rightarrow> nat" where
  "idx q m lo mid hi = lo + m * mid + q * m * hi"

definition midrev :: "nat \<Rightarrow> nat \<Rightarrow> nat" where
  "midrev q c = (if q = 4 then (if c = 1 then 2 else if c = 2 then 1 else c) else c)"

definition rev_ok :: "nat \<Rightarrow> (nat \<Rightarrow> nat) \<Rightarrow> bool" where
  "rev_ok m r \<longleftrightarrow> (\<forall>k<m. r k < m \<and> r (r k) = k) \<and> r 0 = 0"

definition swapped_inv ::
  "nat \<Rightarrow> nat \<Rightarrow> (nat \<Rightarrow> nat) \<Rightarrow> 'a list \<Rightarrow> (nat \<Rightarrow> nat \<Rightarrow> nat \<Rightarrow> bool) \<Rightarrow> 'a list \<Rightarrow> bool" where
  "swapped_inv q m r x Dn d \<longleftrightarrow>
     length d = q * m * m \<and>
     (\<forall>lo<m. \<forall>mid<q. \<forall>hi<m.
        d ! idx q m lo mid hi =
          (if Dn lo mid (r hi) then x ! idx q m (r hi) (midrev q mid) (r lo)
           else x ! idx q m lo mid hi))"

definition done_upto :: "nat \<Rightarrow> nat \<Rightarrow> nat \<Rightarrow> nat \<Rightarrow> nat \<Rightarrow> bool" where
  "done_upto k j a c b \<longleftrightarrow> max a b < k \<or> (max a b = k \<and> min a b < j)"

definition pattern_of :: "nat \<Rightarrow> nat \<Rightarrow> (nat \<Rightarrow> nat) \<Rightarrow> nat list" where
  "pattern_of q m r = map (\<lambda>k. q * m * r k) [0..<m]"

text \<open>
  The invariant of the out-of-place reindexing: the input array is \<open>x\<close>, and the triples
  selected by the predicate have been written to the output array.
\<close>

definition copied_inv ::
  "nat \<Rightarrow> nat \<Rightarrow> (nat \<Rightarrow> nat) \<Rightarrow> 'a list \<Rightarrow> (nat \<Rightarrow> nat \<Rightarrow> nat \<Rightarrow> bool) \<Rightarrow> 'a bufs \<Rightarrow> bool" where
  "copied_inv q m r x Wn b \<longleftrightarrow>
     in_buf b = x \<and> length (out_buf b) = q * m * m \<and>
     (\<forall>lo<m. \<forall>mid<q. \<forall>hi<m. Wn lo mid (r hi) \<longrightarrow>
        out_buf b ! idx q m lo mid hi = x ! idx q m (r hi) (midrev q mid) (r lo))"

text \<open>
  The root of unity of a transform of length \<open>N\<close> in direction \<open>D\<close>, the transform sum, and
  the effect of \<open>mix\<close> on the \<open>2 ^ L\<close> samples at offset \<open>p\<close>: it leaves the rest of the
  array alone and replaces the block by the transform sum of the block read in bit-reversed
  order.
\<close>

definition omega :: "int \<Rightarrow> nat \<Rightarrow> complex" where
  "omega D N = cis (of_int D * 2 * pi / real N)"

definition dft_sum :: "int \<Rightarrow> nat \<Rightarrow> (nat \<Rightarrow> complex) \<Rightarrow> nat \<Rightarrow> complex" where
  "dft_sum D N x k = (\<Sum>n<N. x n * omega D N ^ (k * n))"

definition mix_post :: "int \<Rightarrow> nat \<Rightarrow> nat \<Rightarrow> complex list \<Rightarrow> complex list \<Rightarrow> bool" where
  "mix_post D L p data d \<longleftrightarrow>
     length d = length data \<and>
     (\<forall>j. j < p \<or> p + 2 ^ L \<le> j \<longrightarrow> d ! j = data ! j) \<and>
     (\<forall>k<2 ^ L. d ! (p + k) = dft_sum D (2 ^ L) (\<lambda>n. data ! (p + brev L n)) k)"

section \<open>Basic facts about accesses and iteration\<close>

lemma rd_Some [simp]: "i < length xs \<Longrightarrow> rd xs i = Some (xs ! i)"
  by (simp add: rd_def)

lemma wr_Some [simp]: "i < length xs \<Longrightarrow> wr i v xs = Some (xs[i := v])"
  by (simp add: wr_def)

lemma std_swap_Some:
  "i < length xs \<Longrightarrow> j < length xs \<Longrightarrow> std_swap i j xs = Some (xs[i := xs ! j, j := xs ! i])"
  by (simp add: std_swap_def)

lemma for_loop_rule:
  assumes "I i s" and "i \<le> hi"
    and "\<And>j t. i \<le> j \<Longrightarrow> j < hi \<Longrightarrow> I j t \<Longrightarrow> \<exists>t'. body j t = Some t' \<and> I (Suc j) t'"
  shows "\<exists>s'. for_loop i hi body s = Some s' \<and> I hi s'"
  using assms
proof (induction "hi - i" arbitrary: i s)
  case 0
  then show ?case by (simp add: for_loop.simps)
next
  case (Suc d)
  then have lt: "i < hi" by simp
  from Suc.prems(3) [OF le_refl lt Suc.prems(1)]
  obtain t where t: "body i s = Some t" "I (Suc i) t" by blast
  have "\<exists>s'. for_loop (Suc i) hi body t = Some s' \<and> I hi s'"
  proof (rule Suc.hyps(1))
    show "d = hi - Suc i" using Suc.hyps(2) by simp
    show "I (Suc i) t" by (rule t)
    show "Suc i \<le> hi" using lt by simp
    show "\<And>j t. Suc i \<le> j \<Longrightarrow> j < hi \<Longrightarrow> I j t \<Longrightarrow> \<exists>t'. body j t = Some t' \<and> I (Suc j) t'"
      using Suc.prems(3) by simp
  qed
  then show ?case using lt t by (subst for_loop.simps) simp
qed

lemma for_loop_empty [simp]: "hi \<le> i \<Longrightarrow> for_loop i hi body s = Some s"
  by (simp add: for_loop.simps)

lemma mul_times: "mul z w = z * w"
  by (simp add: mul_def complex_eq_iff)

lemma mul_one: "mul z (Complex 1 0) = z"
  by (simp add: mul_def)

lemma twiddles_nth:
  "k < n div 4 \<Longrightarrow>
   twiddles a d n ! k = Complex (cos (a * real k * (of_int d * 2 * pi / real n)))
                               (sin (a * real k * (of_int d * 2 * pi / real n)))"
  by (simp add: twiddles_def Let_def mult_ac)

lemma length_twiddles [simp]: "length (twiddles a d n) = n div 4"
  by (simp add: twiddles_def Let_def)

section \<open>The rotation of the butterfly\<close>

text \<open>
  Claim C3 (as amended). The rotation by a quarter turn used in the butterfly maps
  \<open>(x, y)\<close> to \<open>(y, -x)\<close> in the forward transform (\<open>D = -1\<close>) and to \<open>(-y, x)\<close> in the
  inverse transform (\<open>D = 1\<close>).
\<close>

theorem rotate90_code:
  "direction (- 1) (Complex x y) = Complex y (- x) \<and>
   direction 1 (Complex x y) = Complex (- y) x"
  by (simp add: direction_def)

text \<open>
  Claim C3 as stated says that the forward rotation maps \<open>(x, y)\<close> to \<open>(-y, x)\<close>. At
  \<open>(1, 2)\<close> the forward rotation of the code does not give \<open>(-2, 1)\<close>.
\<close>

theorem rotate90_counterexample:
  "direction (- 1) (Complex 1 2) \<noteq> Complex (- 2) 1"
  by (simp add: direction_def)

section \<open>The radix-4 combination\<close>

lemma nat_mult_sums:
  "M * 2 = M + M" "M * 3 = M + M + M" "2 * M = M + M" "3 * M = M + M + (M::nat)"
  by simp_all

lemma t_nth0:
  "0 < M \<Longrightarrow> t1 D (4 * M) ! 0 = Complex 1 0"
  "0 < M \<Longrightarrow> t2 D (4 * M) ! 0 = Complex 1 0"
  "0 < M \<Longrightarrow> t3 D (4 * M) ! 0 = Complex 1 0"
  by (simp_all add: t1_def t2_def t3_def twiddles_nth)

lemma t_length [simp]:
  "length (t1 D N) = N div 4" "length (t2 D N) = N div 4" "length (t3 D N) = N div 4"
  by (simp_all add: t1_def t2_def t3_def)

lemma mix_first_inv:
  assumes M: "0 < M" and len: "p + 4 * M \<le> length data"
  shows "\<exists>d. mix_first D (4 * M) p data = Some d \<and> comb_inv D M p data 1 d"
proof -
  let ?d = "data[p := comb_at D M p data 0 0, p + M := comb_at D M p data 1 0,
                 p + (M + M) := comb_at D M p data 2 0, p + (M + M + M) := comb_at D M p data 3 0]"
  have "mix_first D (4 * M) p data = Some ?d"
    using M len
    by (simp add: mix_first_def mix_store_def Let_def comb_at_def comb_def t_nth0 mul_one
        nat_mult_sums add_ac)
  moreover have "comb_inv D M p data 1 ?d"
    using M len unfolding comb_inv_def
    by (auto simp: nth_list_update)
  ultimately show ?thesis by blast
qed

lemma mix_step_inv:
  assumes M: "0 < M" and len: "p + 4 * M \<le> length data"
    and i0: "1 \<le> i0" "i0 < M" and inv: "comb_inv D M p data i0 d"
  shows "\<exists>d'. mix_step D (4 * M) p i0 d = Some d' \<and> comb_inv D M p data (Suc i0) d'"
proof -
  have ld: "length d = length data" using inv by (simp add: comb_inv_def)
  have cur: "d ! (p + i0) = data ! (p + i0)" "d ! (p + M + i0) = data ! (p + M + i0)"
    "d ! (p + 2 * M + i0) = data ! (p + 2 * M + i0)" "d ! (p + 3 * M + i0) = data ! (p + 3 * M + i0)"
    using inv i0 unfolding comb_inv_def by auto
  let ?d = "d[p + i0 := comb_at D M p data 0 i0, p + (i0 + M) := comb_at D M p data 1 i0,
              p + (i0 + M + M) := comb_at D M p data 2 i0, p + (i0 + M + M + M) := comb_at D M p data 3 i0]"
  have "mix_step D (4 * M) p i0 d = Some ?d"
    using M len i0 ld cur
    by (simp add: mix_step_def mix_store_def Let_def comb_at_def comb_def nat_mult_sums add_ac)
  moreover have "comb_inv D M p data (Suc i0) ?d"
    using M len i0 inv unfolding comb_inv_def
    by (auto simp: nth_list_update less_Suc_eq)
  ultimately show ?thesis by blast
qed

lemma mix_combine_inv:
  assumes M: "0 < M" and len: "p + 4 * M \<le> length data"
  shows "\<exists>d. mix_combine D (4 * M) p data = Some d \<and> comb_inv D M p data M d"
proof -
  obtain d1 where d1: "mix_first D (4 * M) p data = Some d1" "comb_inv D M p data 1 d1"
    using mix_first_inv [OF M len] by blast
  have "\<exists>d. for_loop 1 M (mix_step D (4 * M) p) d1 = Some d \<and> comb_inv D M p data M d"
    by (rule for_loop_rule [where I = "comb_inv D M p data"])
       (use d1 M in \<open>auto intro: mix_step_inv [OF M len]\<close>)
  then show ?thesis using d1 by (simp add: mix_combine_def)
qed



section \<open>Bit reversal and the pattern table\<close>

lemma brev_lt: "brev p n < 2 ^ p"
proof (induction p arbitrary: n)
  case 0
  show ?case by simp
next
  case (Suc p)
  have "n mod 2 = 0 \<or> n mod 2 = 1" by arith
  then show ?case using Suc [of "n div 2"] by auto
qed

lemma brev_zero [simp]: "brev p 0 = 0"
  by (induction p) auto

lemma brev_append:
  "a < 2 ^ p \<Longrightarrow> brev (p + q) (a + 2 ^ p * c) = 2 ^ q * brev p a + brev q c"
proof (induction p arbitrary: a)
  case 0
  then show ?case by simp
next
  case (Suc p)
  have e: "a + 2 ^ Suc p * c = a + 2 * (2 ^ p * c)" by simp
  have m: "(a + 2 ^ Suc p * c) mod 2 = a mod 2" unfolding e by simp
  have d: "(a + 2 ^ Suc p * c) div 2 = a div 2 + 2 ^ p * c" unfolding e by simp
  have "a div 2 < 2 ^ p" using Suc.prems by simp
  from Suc.IH [OF this] have "brev (p + q) (a div 2 + 2 ^ p * c) = 2 ^ q * brev p (a div 2) + brev q c" .
  then have "brev (Suc (p + q)) (a + 2 ^ Suc p * c) =
      2 ^ (p + q) * (a mod 2) + (2 ^ q * brev p (a div 2) + brev q c)"
    by (simp only: brev.simps m d)
  also have "\<dots> = 2 ^ q * brev (Suc p) a + brev q c"
    by (simp add: algebra_simps power_add)
  finally show ?case by simp
qed

lemma brev_invol: "n < 2 ^ p \<Longrightarrow> brev p (brev p n) = n"
proof (induction p arbitrary: n)
  case 0
  then show ?case by simp
next
  case (Suc p)
  have lt: "brev p (n div 2) < 2 ^ p" by (rule brev_lt)
  have h: "n div 2 < 2 ^ p" using Suc.prems by simp
  have "brev (Suc p) (brev (Suc p) n) = brev (p + 1) (brev p (n div 2) + 2 ^ p * (n mod 2))"
    by (simp add: add.commute)
  also have "\<dots> = 2 ^ 1 * brev p (brev p (n div 2)) + brev 1 (n mod 2)"
    by (rule brev_append [OF lt])
  also have "\<dots> = 2 * (n div 2) + n mod 2"
    using Suc.IH [OF h] by simp
  also have "\<dots> = n" by simp
  finally show ?case .
qed

lemma pow2_cmp: "(2::nat) ^ b * 4 < 2 ^ (b + d) \<longleftrightarrow> 2 < d"
proof -
  have "(2::nat) ^ b * 4 = 2 ^ (b + 2)" by (simp add: power_add)
  then show ?thesis by (simp del: power_Suc)
qed

lemma pattern_size_impl_pow2:
  "pattern_size_impl (2 ^ (b + d)) (2 ^ b) = 2 ^ (b + (d - 1) div 2)"
proof (induction d arbitrary: b rule: less_induct)
  case (less d)
  show ?case
  proof (cases "2 < d")
    case False
    then have "(d - 1) div 2 = 0" by simp
    with False show ?thesis by (subst pattern_size_impl.simps) (simp add: pow2_cmp)
  next
    case True
    define e where "e = d - 2"
    have e: "d = e + 2" "e < d" "0 < e" using True by (simp_all add: e_def)
    have h: "(2::nat) ^ (b + d) div 2 = 2 ^ (Suc b + e)" by (simp add: e)
    have "pattern_size_impl (2 ^ (b + d)) (2 ^ b) = pattern_size_impl (2 ^ (Suc b + e)) (2 ^ Suc b)"
    proof -
      have c: "(2::nat) ^ b * 4 < 2 ^ (b + d)" using True by (simp only: pow2_cmp)
      have h2: "(2::nat) ^ b * 2 = 2 ^ Suc b" by simp
      show ?thesis by (subst pattern_size_impl.simps) (simp only: c h h2 if_True)
    qed
    also have "\<dots> = 2 ^ (Suc b + (e - 1) div 2)" by (rule less [OF e(2)])
    also have "Suc b + (e - 1) div 2 = b + (d - 1) div 2" using e by simp
    finally show ?thesis .
  qed
qed

lemma ispow4_impl_pow2:
  "0 < d \<Longrightarrow> ispow4_impl (2 ^ (b + d)) (2 ^ b) \<longleftrightarrow> even d"
proof (induction d arbitrary: b rule: less_induct)
  case (less d)
  show ?case
  proof (cases "2 < d")
    case False
    then have "d = 1 \<or> d = 2" using less.prems by arith
    moreover have "(2::nat) ^ b * 4 \<noteq> 2 ^ (b + 1)" by simp
    moreover have "(2::nat) ^ b * 4 = 2 ^ (b + 2)" by (simp add: power_add)
    ultimately show ?thesis using False
      by (subst ispow4_impl.simps) (auto simp add: pow2_cmp simp del: power_Suc)
  next
    case True
    define e where "e = d - 2"
    have e: "d = e + 2" "e < d" "0 < e" using True by (simp_all add: e_def)
    have h: "(2::nat) ^ (b + d) div 2 = 2 ^ (Suc b + e)" by (simp add: e)
    have "ispow4_impl (2 ^ (b + d)) (2 ^ b) = ispow4_impl (2 ^ (Suc b + e)) (2 ^ Suc b)"
    proof -
      have c: "(2::nat) ^ b * 4 < 2 ^ (b + d)" using True by (simp only: pow2_cmp)
      have h2: "(2::nat) ^ b * 2 = 2 ^ Suc b" by simp
      show ?thesis by (subst ispow4_impl.simps) (simp only: c h h2 if_True)
    qed
    also have "\<dots> = even e" by (rule less.IH [OF e(2) e(3)])
    also have "\<dots> = even d" using e by simp
    finally show ?thesis .
  qed
qed

lemma pattern_size_pow2: "pattern_size (2 ^ L) = 2 ^ ((L - 1) div 2)"
  using pattern_size_impl_pow2 [of 0 L] by (simp add: pattern_size_def)

lemma ispow4_pow2: "0 < L \<Longrightarrow> ispow4 (2 ^ L) \<longleftrightarrow> even L"
  using ispow4_impl_pow2 [of L 0] by (simp add: ispow4_def)

lemma bitpattern_push_loop:
  assumes "m \<le> length l"
  shows "for_loop 0 m (bitpattern_push n) l = Some (l @ map (\<lambda>j. l ! j + n) [0..<m])"
proof -
  have "\<exists>s'. for_loop 0 m (bitpattern_push n) l = Some s' \<and> s' = l @ map (\<lambda>j. l ! j + n) [0..<m]"
  proof (rule for_loop_rule [where I = "\<lambda>j s. s = l @ map (\<lambda>j. l ! j + n) [0..<j]"])
    show "l = l @ map (\<lambda>j. l ! j + n) [0..<0]" by simp
    show "0 \<le> m" by simp
  next
    fix j t
    assume "j < m" and t: "t = l @ map (\<lambda>j. l ! j + n) [0..<j]"
    then have "j < length l" using assms by simp
    then have "l \<noteq> []" by auto
    with \<open>j < length l\<close> show "\<exists>t'. bitpattern_push n j t = Some t' \<and> t' = l @ map (\<lambda>j. l ! j + n) [0..<Suc j]"
      by (simp add: bitpattern_push_def t nth_append)
  qed
  then show ?thesis by simp
qed

lemma brev_one: "0 < q \<Longrightarrow> brev q (Suc 0) = 2 ^ (q - Suc 0)"
  by (cases q) simp_all

lemma brev_high_bit:
  assumes "j < 2 ^ b" and "b < L"
  shows "brev L (j + 2 ^ b) = brev L j + 2 ^ (L - b - 1)"
proof -
  define q where "q = L - b"
  have L: "L = b + q" and q: "0 < q" using assms by (simp_all add: q_def)
  have "brev (b + q) (j + 2 ^ b * 1) = 2 ^ q * brev b j + brev q 1"
    by (rule brev_append [OF assms(1)])
  moreover have "brev (b + q) (j + 2 ^ b * 0) = 2 ^ q * brev b j + brev q 0"
    by (rule brev_append [OF assms(1)])
  ultimately show ?thesis using q by (simp add: L brev_one)
qed

lemma brev_low:
  assumes "k < 2 ^ p"
  shows "brev (p + q) k = 2 ^ q * brev p k"
  using brev_append [OF assms, of q 0] by simp

lemma map_double_upt:
  assumes "\<And>j. j < m \<Longrightarrow> f (j + m) = f j + n"
  shows "map f [0..<m * 2] = map f [0..<m] @ map (\<lambda>j. map f [0..<m] ! j + n) [0..<m]"
proof (rule nth_equalityI)
  show "length (map f [0..<m * 2]) = length (map f [0..<m] @ map (\<lambda>j. map f [0..<m] ! j + n) [0..<m])"
    by simp
next
  fix i assume "i < length (map f [0..<m * 2])"
  then have i: "i < m * 2" by simp
  show "map f [0..<m * 2] ! i = (map f [0..<m] @ map (\<lambda>j. map f [0..<m] ! j + n) [0..<m]) ! i"
  proof (cases "i < m")
    case True
    then show ?thesis using i by (simp add: nth_append)
  next
    case False
    then have "i - m < m" using i by simp
    with False i assms [of "i - m"] show ?thesis by (simp add: nth_append)
  qed
qed

lemma bitpattern_while_pow2:
  "bitpattern_while (2 ^ (b + d)) (2 ^ b) (map (brev (2 * b + d)) [0..<2 ^ b]) =
   Some (map (brev (2 * b + d)) [0..<2 ^ (b + (d - 1) div 2)])"
proof (induction d arbitrary: b rule: less_induct)
  case (less d)
  show ?case
  proof (cases "2 < d")
    case False
    then have "(d - 1) div 2 = 0" by simp
    with False show ?thesis by (subst bitpattern_while.simps) (simp add: pow2_cmp)
  next
    case True
    define e where "e = d - 2"
    have e: "d = e + 2" "e < d" "0 < e" using True by (simp_all add: e_def)
    define L where "L = 2 * b + d"
    have L': "2 * Suc b + e = L" by (simp add: L_def e)
    have c: "(2::nat) ^ b * 4 < 2 ^ (b + d)" using True by (simp only: pow2_cmp)
    have h: "(2::nat) ^ (b + d) div 2 = 2 ^ (Suc b + e)" by (simp add: e)
    have h2: "(2::nat) ^ b * 2 = 2 ^ Suc b" by simp
    have hb: "brev L (j + 2 ^ b) = brev L j + 2 ^ (Suc b + e)" if "j < 2 ^ b" for j
    proof -
      have "b < L" using e by (simp add: L_def)
      moreover have "L - b - 1 = Suc b + e" by (simp add: L_def e)
      ultimately show ?thesis using brev_high_bit [OF that, of L] by simp
    qed
    have dbl: "map (brev L) [0..<2 ^ b * 2] = map (brev L) [0..<2 ^ b] @
        map (\<lambda>j. map (brev L) [0..<2 ^ b] ! j + 2 ^ (Suc b + e)) [0..<2 ^ b]"
      by (rule map_double_upt [where f = "brev L" and m = "2 ^ b"]) (rule hb)
    have "for_loop 0 (2 ^ b) (bitpattern_push (2 ^ (Suc b + e))) (map (brev L) [0..<2 ^ b]) =
        Some (map (brev L) [0..<2 ^ b * 2])"
      by (subst bitpattern_push_loop) (simp_all only: dbl length_map length_upt diff_zero le_refl)
    then have loop: "for_loop 0 (2 ^ b) (bitpattern_push (2 ^ (Suc b + e))) (map (brev L) [0..<2 ^ b]) =
        Some (map (brev L) [0..<2 ^ Suc b])"
      by (simp only: h2)
    have "bitpattern_while (2 ^ (b + d)) (2 ^ b) (map (brev L) [0..<2 ^ b]) =
          bitpattern_while (2 ^ (Suc b + e)) (2 ^ Suc b) (map (brev L) [0..<2 ^ Suc b])"
      by (subst bitpattern_while.simps) (simp only: c h h2 if_True Let_def loop bind.bind_lunit)
    also have "\<dots> = Some (map (brev L) [0..<2 ^ (Suc b + (e - 1) div 2)])"
      using less [OF e(2), of "Suc b"] by (simp only: L')
    also have "Suc b + (e - 1) div 2 = b + (d - 1) div 2" using e by simp
    finally show ?thesis by (simp only: L_def)
  qed
qed

lemma bit_pattern_pow2:
  assumes "0 < L"
  shows "bit_pattern (2 ^ L) = Some (map (brev L) [0..<2 ^ ((L - 1) div 2)])"
proof -
  define p where "p = (L - 1) div 2"
  have n: "(let n = (2 ^ p * 2 ^ p) * 2; n = (if even L then n * 2 else n) in n) = (2::nat) ^ L"
  proof (cases "even L")
    case True
    then have "L = p + p + 2" unfolding p_def using assms by presburger
    then show ?thesis using True by (simp add: power_add)
  next
    case False
    then have "L = p + p + 1" unfolding p_def using assms by presburger
    then show ?thesis using False by (simp add: power_add)
  qed
  have w: "bitpattern_while (2 ^ L) 1 [0] = Some (map (brev L) [0..<2 ^ p])"
    using bitpattern_while_pow2 [of 0 L] by (simp add: p_def)
  have "bitpattern (2 ^ p) (even L) = Some (map (brev L) [0..<2 ^ p])"
    using n w by (simp add: bitpattern_def Let_def)
  then show ?thesis
    using assms by (simp add: bit_pattern_def BitReverse_pattern_def pattern_size_pow2 ispow4_pow2 p_def)
qed

lemma pow4_as_pow2: "(4::nat) ^ k = 2 ^ (2 * k)" "2 * (4::nat) ^ k = 2 ^ (2 * k + 1)"
  by (simp_all add: power_mult)

lemma upt_2: "[0..<2] = [0, Suc 0]"
  by (simp add: upt_rec)

text \<open>
  Claim C4 (as amended). The bit-reversal pattern of a transform of length \<open>N\<close> has \<open>M\<close>
  entries, where \<open>4 M M = N\<close> when \<open>N = 4 ^ k\<close> is a power of four (\<open>M = 2 ^ (k - 1)\<close>),
  and \<open>2 M M = N\<close> when \<open>N = 2 * 4 ^ k\<close> is not (\<open>M = 2 ^ k\<close>).
\<close>

theorem bit_pattern_length:
  "(0 < k \<longrightarrow> (\<exists>pat. bit_pattern (4 ^ k) = Some pat \<and> length pat = 2 ^ (k - 1) \<and>
        4 * (length pat * length pat) = 4 ^ k)) \<and>
   (\<exists>pat. bit_pattern (2 * 4 ^ k) = Some pat \<and> length pat = 2 ^ k \<and>
        2 * (length pat * length pat) = 2 * 4 ^ k)"
proof (intro conjI impI)
  assume k: "0 < k"
  have d: "(2 * k - Suc 0) div 2 = k - Suc 0" using k by arith
  have "(4::nat) * (2 ^ (k - 1) * 2 ^ (k - 1)) = 2 ^ (2 + ((k - 1) + (k - 1)))"
    by (simp only: power_add) simp
  also have "2 + ((k - 1) + (k - 1)) = 2 * k" using k by simp
  finally have "(4::nat) * (2 ^ (k - 1) * 2 ^ (k - 1)) = 4 ^ k" by (simp only: pow4_as_pow2)
  then show "\<exists>pat. bit_pattern (4 ^ k) = Some pat \<and> length pat = 2 ^ (k - 1) \<and>
        4 * (length pat * length pat) = 4 ^ k"
    using bit_pattern_pow2 [of "2 * k"] k by (simp add: pow4_as_pow2 d)
next
  have d: "(2 * k + 1 - 1) div 2 = k" by simp
  have "(2::nat) ^ k * 2 ^ k = 4 ^ k" by (simp add: power_mult power2_eq_square power_mult_distrib [symmetric])
  then show "\<exists>pat. bit_pattern (2 * 4 ^ k) = Some pat \<and> length pat = 2 ^ k \<and>
        2 * (length pat * length pat) = 2 * 4 ^ k"
    using bit_pattern_pow2 [of "2 * k + 1"] by (simp only: pow4_as_pow2 [symmetric] d) simp
qed

theorem bit_pattern_length_witness:
  "(0::nat) < 2 \<and> (\<exists>pat. bit_pattern 16 = Some pat \<and> length pat = 2 \<and> 4 * (length pat * length pat) = 16)
   \<and> (\<exists>pat. bit_pattern 32 = Some pat \<and> length pat = 4 \<and> 2 * (length pat * length pat) = 32)"
  using bit_pattern_length [of 2] by simp

text \<open>
  Claim C4 as stated gives the length \<open>N / 4\<close> for a power of four. For \<open>N = 16\<close> the
  pattern is \<open>[0, 8]\<close>, of length \<open>2\<close>.
\<close>

theorem bit_pattern_length_counterexample:
  "bit_pattern 16 = Some [0, 8] \<and> length [0, 8::nat] \<noteq> 16 div 4"
proof -
  have "bit_pattern (2 ^ 4) = Some (map (brev 4) [0..<2 ^ ((4 - 1) div 2)])"
    by (rule bit_pattern_pow2) simp
  moreover have "[0..<2 ^ ((4 - 1) div 2)] = [0, Suc 0]" by (simp add: upt_2)
  moreover have "brev 4 (Suc 0) = 8" by (simp add: eval_nat_numeral)
  ultimately show ?thesis by simp
qed

section \<open>In-place reindexing is the bit reversal permutation\<close>

lemma idx_alt: "idx q m lo mid hi = lo + m * (mid + q * hi)"
  by (simp add: idx_def algebra_simps)

lemma idx_inj:
  assumes "lo < m" "lo' < m" "mid < q" "mid' < q"
  shows "idx q m lo mid hi = idx q m lo' mid' hi' \<longleftrightarrow> lo = lo' \<and> mid = mid' \<and> hi = hi'"
proof
  assume e: "idx q m lo mid hi = idx q m lo' mid' hi'"
  have "(lo + m * (mid + q * hi)) mod m = lo" "(lo' + m * (mid' + q * hi')) mod m = lo'"
    using assms by simp_all
  with e have l: "lo = lo'" unfolding idx_alt by simp
  have "(lo + m * (mid + q * hi)) div m = mid + q * hi"
       "(lo' + m * (mid' + q * hi')) div m = mid' + q * hi'"
    using assms by simp_all
  with e have e2: "mid + q * hi = mid' + q * hi'" unfolding idx_alt by simp
  have "(mid + q * hi) mod q = mid" "(mid' + q * hi') mod q = mid'"
    using assms by simp_all
  with e2 have c: "mid = mid'" by simp
  have "(mid + q * hi) div q = hi" "(mid' + q * hi') div q = hi'"
    using assms by simp_all
  with e2 have "hi = hi'" by simp
  with l c show "lo = lo' \<and> mid = mid' \<and> hi = hi'" by simp
qed simp

lemma idx_lt:
  assumes "lo < m" "mid < q" "hi < m"
  shows "idx q m lo mid hi < q * m * m"
proof -
  have "mid + q * hi < q * (hi + 1)" using assms by simp
  also have "\<dots> \<le> q * m" using assms by (intro mult_le_mono) simp_all
  finally have "mid + q * hi + 1 \<le> q * m" by simp
  then have "m * (mid + q * hi + 1) \<le> m * (q * m)" by (rule mult_le_mono2)
  moreover have "lo + m * (mid + q * hi) < m * (mid + q * hi + 1)" using assms by simp
  ultimately show ?thesis unfolding idx_alt by (simp add: mult_ac)
qed

lemma idx_decomp:
  assumes "0 < m" "0 < q" "i < q * m * m"
  shows "i = idx q m (i mod m) ((i div m) mod q) (i div (q * m))"
    and "i mod m < m" and "(i div m) mod q < q" and "i div (q * m) < m"
proof -
  have "i div (q * m) = (i div m) div q" by (simp add: div_mult2_eq mult.commute)
  then show "i = idx q m (i mod m) ((i div m) mod q) (i div (q * m))"
    unfolding idx_alt by simp
  show "i mod m < m" "(i div m) mod q < q" using assms by simp_all
  show "i div (q * m) < m"
    using assms by (simp add: less_mult_imp_div_less mult_ac)
qed

lemma midrev_lt: "c < q \<Longrightarrow> midrev q c < q"
  by (auto simp: midrev_def)

lemma midrev_invol [simp]: "midrev q (midrev q c) = c"
  by (auto simp: midrev_def)

lemma rev_okD: "rev_ok m r \<Longrightarrow> k < m \<Longrightarrow> r k < m" "rev_ok m r \<Longrightarrow> k < m \<Longrightarrow> r (r k) = k"
  by (simp_all add: rev_ok_def)

lemma rev_ok_eq:
  assumes "rev_ok m r" "h < m" "b < m"
  shows "r h = b \<longleftrightarrow> h = r b"
proof
  assume "r h = b"
  then show "h = r b" using rev_okD(2) [OF assms(1,2)] by simp
next
  assume "h = r b"
  then show "r h = b" using rev_okD(2) [OF assms(1,3)] by simp
qed

lemma swapped_inv_cong:
  assumes ok: "rev_ok m r" and inv: "swapped_inv q m r x Dn d"
    and eq: "\<And>a c b. a < m \<Longrightarrow> c < q \<Longrightarrow> b < m \<Longrightarrow> Dn a c b = Dn' a c b \<or> (a = b \<and> midrev q c = c)"
  shows "swapped_inv q m r x Dn' d"
  unfolding swapped_inv_def
proof (intro conjI allI impI)
  show "length d = q * m * m" using inv by (simp add: swapped_inv_def)
next
  fix lo mid hi assume b: "lo < m" "mid < q" "hi < m"
  have rh: "r hi < m" "r (r hi) = hi" using ok b by (simp_all add: rev_okD)
  from inv b have d: "d ! idx q m lo mid hi =
          (if Dn lo mid (r hi) then x ! idx q m (r hi) (midrev q mid) (r lo)
           else x ! idx q m lo mid hi)" by (simp add: swapped_inv_def)
  from eq [OF b(1,2) rh(1)] show "d ! idx q m lo mid hi =
          (if Dn' lo mid (r hi) then x ! idx q m (r hi) (midrev q mid) (r lo)
           else x ! idx q m lo mid hi)"
  proof
    assume "Dn lo mid (r hi) = Dn' lo mid (r hi)"
    with d show ?thesis by simp
  next
    assume "lo = r hi \<and> midrev q mid = mid"
    with rh d show ?thesis by simp
  qed
qed

lemma swap_one:
  assumes ok: "rev_ok m r"
    and inv: "swapped_inv q m r x Dn d"
    and a: "a < m" and c: "c < q" and b: "b < m"
    and n1: "\<not> Dn a c b" and n2: "\<not> Dn b (midrev q c) a"
  shows "\<exists>d'. std_swap (idx q m a c (r b)) (idx q m b (midrev q c) (r a)) d = Some d' \<and>
       swapped_inv q m r x
         (\<lambda>a' c' b'. Dn a' c' b' \<or> (a' = a \<and> c' = c \<and> b' = b) \<or>
                     (a' = b \<and> c' = midrev q c \<and> b' = a)) d'"
proof -
  let ?i = "idx q m a c (r b)" and ?j = "idx q m b (midrev q c) (r a)"
  have ra: "r a < m" "r (r a) = a" and rb: "r b < m" "r (r b) = b"
    using ok a b by (simp_all add: rev_okD)
  have c': "midrev q c < q" using c by (rule midrev_lt)
  have len: "length d = q * m * m" using inv by (simp add: swapped_inv_def)
  have i: "?i < length d" and j: "?j < length d"
    unfolding len using a b c c' ra rb by (simp_all add: idx_lt)
  have di: "d ! ?i = x ! ?i" using inv a c rb n1 by (simp add: swapped_inv_def)
  have dj: "d ! ?j = x ! ?j" using inv b c' ra n2 by (simp add: swapped_inv_def)
  let ?d = "d[?i := d ! ?j, ?j := d ! ?i]"
  have sw: "std_swap ?i ?j d = Some ?d" using i j by (rule std_swap_Some)
  have "swapped_inv q m r x
         (\<lambda>a' c' b'. Dn a' c' b' \<or> (a' = a \<and> c' = c \<and> b' = b) \<or>
                     (a' = b \<and> c' = midrev q c \<and> b' = a)) ?d"
    unfolding swapped_inv_def
  proof (intro conjI allI impI)
    show "length ?d = q * m * m" using len by simp
  next
    fix lo mid hi assume t: "lo < m" "mid < q" "hi < m"
    let ?t = "idx q m lo mid hi"
    have rh: "r hi < m" "r (r hi) = hi" using ok t by (simp_all add: rev_okD)
    have "?t = ?i \<longleftrightarrow> lo = a \<and> mid = c \<and> hi = r b"
      using t(1) a t(2) c by (rule idx_inj)
    moreover have "hi = r b \<longleftrightarrow> r hi = b" using rev_ok_eq [OF ok t(3) b] by blast
    ultimately have ti: "?t = ?i \<longleftrightarrow> lo = a \<and> mid = c \<and> r hi = b" by simp
    have "?t = ?j \<longleftrightarrow> lo = b \<and> mid = midrev q c \<and> hi = r a"
      using t(1) b t(2) c' by (rule idx_inj)
    moreover have "hi = r a \<longleftrightarrow> r hi = a" using rev_ok_eq [OF ok t(3) a] by blast
    ultimately have tj: "?t = ?j \<longleftrightarrow> lo = b \<and> mid = midrev q c \<and> r hi = a" by simp
    have tl: "?t < length d" unfolding len using t by (simp add: idx_lt)
    from inv t have dt: "d ! ?t =
          (if Dn lo mid (r hi) then x ! idx q m (r hi) (midrev q mid) (r lo) else x ! ?t)"
      by (simp add: swapped_inv_def)
    show "?d ! ?t =
       (if Dn lo mid (r hi) \<or> (lo = a \<and> mid = c \<and> r hi = b) \<or>
           (lo = b \<and> mid = midrev q c \<and> r hi = a)
        then x ! idx q m (r hi) (midrev q mid) (r lo) else x ! ?t)"
    proof (cases "?t = ?j")
      case True
      then have e: "lo = b" "mid = midrev q c" "r hi = a" using tj by simp_all
      have "?d ! ?t = d ! ?i" using True j by simp
      then show ?thesis using e di by simp
    next
      case nj: False
      show ?thesis
      proof (cases "?t = ?i")
        case True
        then have e: "lo = a" "mid = c" "r hi = b" using ti by simp_all
        have "?d ! ?t = d ! ?j" using True nj i by simp
        then show ?thesis using e dj by simp
      next
        case False
        then have u: "?d ! ?t = d ! ?t" using nj by simp
        have "(Dn lo mid (r hi) \<or> (lo = a \<and> mid = c \<and> r hi = b) \<or>
           (lo = b \<and> mid = midrev q c \<and> r hi = a)) = Dn lo mid (r hi)"
          using False nj ti tj by blast
        then show ?thesis by (simp only: u dt)
      qed
    qed
  qed
  with sw show ?thesis by blast
qed

lemma pattern_of_simps [simp]:
  "length (pattern_of q m r) = m"
  "k < m \<Longrightarrow> pattern_of q m r ! k = q * m * r k"
  by (simp_all add: pattern_of_def)

lemma reindex_swap4_idx:
  assumes "j < m" "k < m"
  shows "reindex_swap4 (pattern_of 4 m r) k j d = do {
     d \<leftarrow> std_swap (idx 4 m j 0 (r k)) (idx 4 m k (midrev 4 0) (r j)) d;
     d \<leftarrow> std_swap (idx 4 m j 1 (r k)) (idx 4 m k (midrev 4 1) (r j)) d;
     d \<leftarrow> std_swap (idx 4 m j 2 (r k)) (idx 4 m k (midrev 4 2) (r j)) d;
     std_swap (idx 4 m j 3 (r k)) (idx 4 m k (midrev 4 3) (r j)) d
   }"
  using assms by (simp add: reindex_swap4_def Let_def idx_def midrev_def algebra_simps)

lemma lt4_cases: "c < (4::nat) \<Longrightarrow> c = 0 \<or> c = 1 \<or> c = 2 \<or> c = 3"
  by arith

lemma swap4_block:
  assumes ok: "rev_ok m r"
    and inv: "swapped_inv 4 m r x Dn d"
    and jk: "j < k" "k < m"
    and nd: "\<And>c. \<not> Dn j c k" "\<And>c. \<not> Dn k c j"
  shows "\<exists>d'. reindex_swap4 (pattern_of 4 m r) k j d = Some d' \<and>
     swapped_inv 4 m r x (\<lambda>a c b. Dn a c b \<or> (a = j \<and> b = k) \<or> (a = k \<and> b = j)) d'"
proof -
  have j: "j < m" and ne: "j \<noteq> k" using jk by simp_all
  let ?D = "\<lambda>n a' c' b'. Dn a' c' b' \<or> (c' < n \<and> a' = j \<and> b' = k) \<or> (midrev 4 c' < n \<and> a' = k \<and> b' = j)"
  have step: "\<exists>d'. std_swap (idx 4 m j c (r k)) (idx 4 m k (midrev 4 c) (r j)) d0 = Some d' \<and>
       swapped_inv 4 m r x (?D (Suc c)) d'"
    if c: "c < 4" and i0: "swapped_inv 4 m r x (?D c) d0" for c d0
  proof -
    have "\<not> ?D c j c k" "\<not> ?D c k (midrev 4 c) j" using nd ne by simp_all
    from swap_one [OF ok i0 j c jk(2) this]
    obtain d' where d': "std_swap (idx 4 m j c (r k)) (idx 4 m k (midrev 4 c) (r j)) d0 = Some d'"
      "swapped_inv 4 m r x (\<lambda>a' c' b'. ?D c a' c' b' \<or> (a' = j \<and> c' = c \<and> b' = k) \<or>
                     (a' = k \<and> c' = midrev 4 c \<and> b' = j)) d'" by blast
    have "swapped_inv 4 m r x (?D (Suc c)) d'"
    proof (rule swapped_inv_cong [OF ok d'(2)])
      fix a' c' b' :: nat assume "c' < 4"
      have "midrev 4 c' = c \<longleftrightarrow> c' = midrev 4 c" by (auto simp: midrev_def)
      then show "(?D c a' c' b' \<or> (a' = j \<and> c' = c \<and> b' = k) \<or>
                     (a' = k \<and> c' = midrev 4 c \<and> b' = j)) = ?D (Suc c) a' c' b' \<or>
                 a' = b' \<and> midrev 4 c' = c'"
        by (auto simp: less_Suc_eq)
    qed
    with d'(1) show ?thesis by blast
  qed
  have "swapped_inv 4 m r x (?D 0) d" using inv by simp
  from step [OF _ this] obtain d1 where
    d1: "std_swap (idx 4 m j 0 (r k)) (idx 4 m k (midrev 4 0) (r j)) d = Some d1"
    "swapped_inv 4 m r x (?D 1) d1" by auto
  from step [of 1, OF _ d1(2)] obtain d2 where
    d2: "std_swap (idx 4 m j 1 (r k)) (idx 4 m k (midrev 4 1) (r j)) d1 = Some d2"
    "swapped_inv 4 m r x (?D 2) d2" by (auto simp: numeral_2_eq_2)
  from step [of 2, OF _ d2(2)] obtain d3 where
    d3: "std_swap (idx 4 m j 2 (r k)) (idx 4 m k (midrev 4 2) (r j)) d2 = Some d3"
    "swapped_inv 4 m r x (?D 3) d3" by (auto simp: numeral_3_eq_3 numeral_2_eq_2)
  from step [of 3, OF _ d3(2)] obtain d4 where
    d4: "std_swap (idx 4 m j 3 (r k)) (idx 4 m k (midrev 4 3) (r j)) d3 = Some d4"
    "swapped_inv 4 m r x (?D 4) d4" by (auto simp: numeral_3_eq_3 eval_nat_numeral)
  have "swapped_inv 4 m r x (\<lambda>a c b. Dn a c b \<or> (a = j \<and> b = k) \<or> (a = k \<and> b = j)) d4"
  proof (rule swapped_inv_cong [OF ok d4(2)])
    fix a' c' b' :: nat assume "c' < 4"
    then have "midrev 4 c' < 4" by (rule midrev_lt)
    with \<open>c' < 4\<close> show "?D 4 a' c' b' = (Dn a' c' b' \<or> (a' = j \<and> b' = k) \<or> (a' = k \<and> b' = j)) \<or>
       a' = b' \<and> midrev 4 c' = c'" by simp
  qed
  moreover have "reindex_swap4 (pattern_of 4 m r) k j d = Some d4"
    by (simp only: reindex_swap4_idx [OF j jk(2)] d1 d2 d3 d4 bind.bind_lunit)
  ultimately show ?thesis by blast
qed

lemma done_upto_step:
  assumes "j < k"
  shows "(done_upto k j a c b \<or> (a = j \<and> b = k) \<or> (a = k \<and> b = j)) = done_upto k (Suc j) a c b"
  using assms by (auto simp: done_upto_def max_def min_def less_Suc_eq)

lemma inner4:
  assumes ok: "rev_ok m r" and k: "k < m"
    and inv: "swapped_inv 4 m r x (done_upto k 0) d"
  shows "\<exists>d'. for_loop 0 k (reindex_swap4 (pattern_of 4 m r) k) d = Some d' \<and>
     swapped_inv 4 m r x (done_upto k k) d'"
proof (rule for_loop_rule [where I = "\<lambda>j. swapped_inv 4 m r x (done_upto k j)"])
  show "swapped_inv 4 m r x (done_upto k 0) d" by (rule inv)
  show "0 \<le> k" by simp
next
  fix j t assume j: "j < k" and t: "swapped_inv 4 m r x (done_upto k j) t"
  have nd: "\<And>c. \<not> done_upto k j j c k" "\<And>c. \<not> done_upto k j k c j"
    using j by (simp_all add: done_upto_def max_def min_def)
  from swap4_block [OF ok t j k nd] obtain t' where
    t': "reindex_swap4 (pattern_of 4 m r) k j t = Some t'"
    "swapped_inv 4 m r x (\<lambda>a c b. done_upto k j a c b \<or> (a = j \<and> b = k) \<or> (a = k \<and> b = j)) t'"
    by blast
  from t'(2) have "swapped_inv 4 m r x (done_upto k (Suc j)) t'"
    by (simp only: done_upto_step [OF j])
  with t'(1) show "\<exists>t'. reindex_swap4 (pattern_of 4 m r) k j t = Some t' \<and>
     swapped_inv 4 m r x (done_upto k (Suc j)) t'" by blast
qed

lemma reindex_row4_idx:
  assumes "k < m"
  shows "reindex_row4 (pattern_of 4 m r) k d = do {
     d \<leftarrow> for_loop 0 k (reindex_swap4 (pattern_of 4 m r) k) d;
     std_swap (idx 4 m k 1 (r k)) (idx 4 m k (midrev 4 1) (r k)) d
   }"
  using assms by (simp add: reindex_row4_def Let_def idx_def midrev_def algebra_simps)

lemma row4:
  assumes ok: "rev_ok m r" and k: "k < m"
    and inv: "swapped_inv 4 m r x (done_upto k 0) d"
  shows "\<exists>d'. reindex_row4 (pattern_of 4 m r) k d = Some d' \<and>
     swapped_inv 4 m r x (done_upto (Suc k) 0) d'"
proof -
  from inner4 [OF ok k inv] obtain d1 where
    d1: "for_loop 0 k (reindex_swap4 (pattern_of 4 m r) k) d = Some d1"
    "swapped_inv 4 m r x (done_upto k k) d1" by blast
  have "\<not> done_upto k k k 1 k" "\<not> done_upto k k k (midrev 4 1) k"
    by (simp_all add: done_upto_def)
  from swap_one [OF ok d1(2) k _ k this] obtain d2 where
    d2: "std_swap (idx 4 m k 1 (r k)) (idx 4 m k (midrev 4 1) (r k)) d1 = Some d2"
    "swapped_inv 4 m r x (\<lambda>a' c' b'. done_upto k k a' c' b' \<or> (a' = k \<and> c' = 1 \<and> b' = k) \<or>
                     (a' = k \<and> c' = midrev 4 1 \<and> b' = k)) d2" by auto
  have "swapped_inv 4 m r x (done_upto (Suc k) 0) d2"
  proof (rule swapped_inv_cong [OF ok d2(2)])
    fix a' c' b' :: nat assume "c' < 4"
    then have "c' = 0 \<or> c' = 1 \<or> c' = 2 \<or> c' = 3" by (rule lt4_cases)
    then show "(done_upto k k a' c' b' \<or> (a' = k \<and> c' = 1 \<and> b' = k) \<or>
                     (a' = k \<and> c' = midrev 4 1 \<and> b' = k)) = done_upto (Suc k) 0 a' c' b' \<or>
         a' = b' \<and> midrev 4 c' = c'"
      by (auto simp: done_upto_def midrev_def max_def min_def less_Suc_eq)
  qed
  moreover have "reindex_row4 (pattern_of 4 m r) k d = Some d2"
    by (simp only: reindex_row4_idx [OF k] d1 d2 bind.bind_lunit)
  ultimately show ?thesis by blast
qed

lemma reindex4_loop:
  assumes ok: "rev_ok m r" and len: "length x = 4 * m * m"
  shows "\<exists>d. for_loop 0 m (reindex_row4 (pattern_of 4 m r)) x = Some d \<and>
     swapped_inv 4 m r x (done_upto m 0) d"
proof (rule for_loop_rule [where I = "\<lambda>k. swapped_inv 4 m r x (done_upto k 0)"])
  show "swapped_inv 4 m r x (done_upto 0 0) x"
    using len by (simp add: swapped_inv_def done_upto_def)
  show "0 \<le> m" by simp
next
  fix k t assume "k < m" "swapped_inv 4 m r x (done_upto k 0) t"
  then show "\<exists>t'. reindex_row4 (pattern_of 4 m r) k t = Some t' \<and>
     swapped_inv 4 m r x (done_upto (Suc k) 0) t'"
    by (rule row4 [OF ok])
qed

subsection \<open>The branch for sizes that are not a power of four\<close>

lemma reindex_swap2_idx:
  assumes "j < m" "k < m"
  shows "reindex_swap2 (pattern_of 2 m r) k j d = do {
     d \<leftarrow> std_swap (idx 2 m j 0 (r k)) (idx 2 m k (midrev 2 0) (r j)) d;
     std_swap (idx 2 m j 1 (r k)) (idx 2 m k (midrev 2 1) (r j)) d
   }"
  using assms by (simp add: reindex_swap2_def Let_def idx_def midrev_def algebra_simps)

lemma swap2_block:
  assumes ok: "rev_ok m r"
    and inv: "swapped_inv 2 m r x Dn d"
    and jk: "j < k" "k < m"
    and nd: "\<And>c. \<not> Dn j c k" "\<And>c. \<not> Dn k c j"
  shows "\<exists>d'. reindex_swap2 (pattern_of 2 m r) k j d = Some d' \<and>
     swapped_inv 2 m r x (\<lambda>a c b. Dn a c b \<or> (a = j \<and> b = k) \<or> (a = k \<and> b = j)) d'"
proof -
  have j: "j < m" and ne: "j \<noteq> k" using jk by simp_all
  have "\<not> Dn j 0 k" "\<not> Dn k (midrev 2 0) j" using nd by simp_all
  from swap_one [OF ok inv j _ jk(2) this] obtain d1 where
    d1: "std_swap (idx 2 m j 0 (r k)) (idx 2 m k (midrev 2 0) (r j)) d = Some d1"
    "swapped_inv 2 m r x (\<lambda>a' c' b'. Dn a' c' b' \<or> (a' = j \<and> c' = 0 \<and> b' = k) \<or>
                     (a' = k \<and> c' = midrev 2 0 \<and> b' = j)) d1" (is "swapped_inv 2 m r x ?D1 d1")
    by auto
  have "\<not> ?D1 j 1 k" "\<not> ?D1 k (midrev 2 1) j" using nd ne by (simp_all add: midrev_def)
  from swap_one [OF ok d1(2) j _ jk(2) this] obtain d2 where
    d2: "std_swap (idx 2 m j 1 (r k)) (idx 2 m k (midrev 2 1) (r j)) d1 = Some d2"
    "swapped_inv 2 m r x (\<lambda>a' c' b'. ?D1 a' c' b' \<or> (a' = j \<and> c' = 1 \<and> b' = k) \<or>
                     (a' = k \<and> c' = midrev 2 1 \<and> b' = j)) d2"
    by auto
  have "swapped_inv 2 m r x (\<lambda>a c b. Dn a c b \<or> (a = j \<and> b = k) \<or> (a = k \<and> b = j)) d2"
  proof (rule swapped_inv_cong [OF ok d2(2)])
    fix a' c' b' :: nat assume "c' < 2"
    then have "c' = 0 \<or> c' = 1" by arith
    then show "(?D1 a' c' b' \<or> (a' = j \<and> c' = 1 \<and> b' = k) \<or>
                     (a' = k \<and> c' = midrev 2 1 \<and> b' = j)) =
        (Dn a' c' b' \<or> (a' = j \<and> b' = k) \<or> (a' = k \<and> b' = j)) \<or> a' = b' \<and> midrev 2 c' = c'"
      by (auto simp: midrev_def)
  qed
  moreover have "reindex_swap2 (pattern_of 2 m r) k j d = Some d2"
    by (simp only: reindex_swap2_idx [OF j jk(2)] d1 d2 bind.bind_lunit)
  ultimately show ?thesis by blast
qed

lemma row2:
  assumes ok: "rev_ok m r" and k: "k < m"
    and inv: "swapped_inv 2 m r x (done_upto k 0) d"
  shows "\<exists>d'. reindex_row2 (pattern_of 2 m r) k d = Some d' \<and>
     swapped_inv 2 m r x (done_upto (Suc k) 0) d'"
proof -
  have "\<exists>d'. for_loop 0 k (reindex_swap2 (pattern_of 2 m r) k) d = Some d' \<and>
     swapped_inv 2 m r x (done_upto k k) d'"
  proof (rule for_loop_rule [where I = "\<lambda>j. swapped_inv 2 m r x (done_upto k j)"])
    show "swapped_inv 2 m r x (done_upto k 0) d" by (rule inv)
    show "0 \<le> k" by simp
  next
    fix j t assume j: "j < k" and t: "swapped_inv 2 m r x (done_upto k j) t"
    have nd: "\<And>c. \<not> done_upto k j j c k" "\<And>c. \<not> done_upto k j k c j"
      using j by (simp_all add: done_upto_def max_def min_def)
    from swap2_block [OF ok t j k nd] obtain t' where
      t': "reindex_swap2 (pattern_of 2 m r) k j t = Some t'"
      "swapped_inv 2 m r x (\<lambda>a c b. done_upto k j a c b \<or> (a = j \<and> b = k) \<or> (a = k \<and> b = j)) t'"
      by blast
    from t'(2) have "swapped_inv 2 m r x (done_upto k (Suc j)) t'"
      by (simp only: done_upto_step [OF j])
    with t'(1) show "\<exists>t'. reindex_swap2 (pattern_of 2 m r) k j t = Some t' \<and>
       swapped_inv 2 m r x (done_upto k (Suc j)) t'" by blast
  qed
  then obtain d1 where d1: "reindex_row2 (pattern_of 2 m r) k d = Some d1"
    "swapped_inv 2 m r x (done_upto k k) d1" by (auto simp: reindex_row2_def)
  have "swapped_inv 2 m r x (done_upto (Suc k) 0) d1"
  proof (rule swapped_inv_cong [OF ok d1(2)])
    fix a' c' b' :: nat assume "c' < 2"
    show "done_upto k k a' c' b' = done_upto (Suc k) 0 a' c' b' \<or> a' = b' \<and> midrev 2 c' = c'"
      by (auto simp: done_upto_def midrev_def max_def min_def less_Suc_eq)
  qed
  with d1(1) show ?thesis by blast
qed

lemma reindex2_loop:
  assumes ok: "rev_ok m r" and m: "0 < m" and len: "length x = 2 * m * m"
  shows "\<exists>d. for_loop 1 m (reindex_row2 (pattern_of 2 m r)) x = Some d \<and>
     swapped_inv 2 m r x (done_upto m 0) d"
proof (rule for_loop_rule [where I = "\<lambda>k. swapped_inv 2 m r x (done_upto k 0)"])
  have "swapped_inv 2 m r x (\<lambda>a c b. False) x"
    using len by (simp add: swapped_inv_def)
  then show "swapped_inv 2 m r x (done_upto 1 0) x"
  proof (rule swapped_inv_cong [OF ok])
    fix a' c' b' :: nat
    show "False = done_upto 1 0 a' c' b' \<or> a' = b' \<and> midrev 2 c' = c'"
      by (auto simp: done_upto_def midrev_def)
  qed
  show "1 \<le> m" using m by simp
next
  fix k t assume "k < m" "swapped_inv 2 m r x (done_upto k 0) t"
  then show "\<exists>t'. reindex_row2 (pattern_of 2 m r) k t = Some t' \<and>
     swapped_inv 2 m r x (done_upto (Suc k) 0) t'"
    by (rule row2 [OF ok])
qed

lemma swapped_inv_final:
  assumes "swapped_inv q m r x (done_upto m 0) d"
  shows "length d = q * m * m"
    and "\<And>lo mid hi. lo < m \<Longrightarrow> mid < q \<Longrightarrow> hi < m \<Longrightarrow> r hi < m \<Longrightarrow>
        d ! idx q m lo mid hi = x ! idx q m (r hi) (midrev q mid) (r lo)"
  using assms by (simp_all add: swapped_inv_def done_upto_def)

lemma rev_ok_brev: "rev_ok (2 ^ p) (brev p)"
  by (simp add: rev_ok_def brev_lt brev_invol)

lemma brev2: "mid < 4 \<Longrightarrow> brev 2 mid = midrev 4 mid"
proof -
  assume "mid < 4"
  have e: "brev 2 n = 2 * (n mod 2) + (n div 2) mod 2" for n
    by (simp add: numeral_2_eq_2)
  from \<open>mid < 4\<close> have "mid = 0 \<or> mid = 1 \<or> mid = 2 \<or> mid = 3" by (rule lt4_cases)
  then show ?thesis unfolding e by (auto simp: midrev_def)
qed

lemma brev1: "mid < 2 \<Longrightarrow> brev 1 mid = midrev 2 mid"
  by (auto simp: midrev_def)

declare brev.simps [simp del]

lemma brev_idx4:
  assumes "lo < 2 ^ p" "mid < 4" "hi < 2 ^ p" and L: "L = p + (2 + p)"
  shows "brev L (idx 4 (2 ^ p) lo mid hi) =
         idx 4 (2 ^ p) (brev p hi) (midrev 4 mid) (brev p lo)"
proof -
  have m: "mid < 2 ^ 2" using assms(2) by simp
  have "brev (p + (2 + p)) (lo + 2 ^ p * (mid + 2 ^ 2 * hi)) =
        2 ^ (2 + p) * brev p lo + brev (2 + p) (mid + 2 ^ 2 * hi)"
    by (rule brev_append [OF assms(1)])
  also have "brev (2 + p) (mid + 2 ^ 2 * hi) = 2 ^ p * brev 2 mid + brev p hi"
    by (rule brev_append [OF m])
  also have "brev 2 mid = midrev 4 mid" using assms(2) by (rule brev2)
  finally have "brev L (lo + 2 ^ p * (mid + 2 ^ 2 * hi)) =
      2 ^ (2 + p) * brev p lo + (2 ^ p * midrev 4 mid + brev p hi)"
    unfolding L .
  moreover have "idx 4 (2 ^ p) lo mid hi = lo + 2 ^ p * (mid + 2 ^ 2 * hi)"
    by (simp add: idx_alt)
  moreover have "idx 4 (2 ^ p) (brev p hi) (midrev 4 mid) (brev p lo) =
      2 ^ (2 + p) * brev p lo + (2 ^ p * midrev 4 mid + brev p hi)"
    by (simp add: idx_def)
  ultimately show ?thesis by (simp only:)
qed

lemma brev_idx2:
  assumes "lo < 2 ^ p" "mid < 2" "hi < 2 ^ p" and L: "L = p + (1 + p)"
  shows "brev L (idx 2 (2 ^ p) lo mid hi) =
         idx 2 (2 ^ p) (brev p hi) (midrev 2 mid) (brev p lo)"
proof -
  have m: "mid < 2 ^ 1" using assms(2) by simp
  have "brev (p + (1 + p)) (lo + 2 ^ p * (mid + 2 ^ 1 * hi)) =
        2 ^ (1 + p) * brev p lo + brev (1 + p) (mid + 2 ^ 1 * hi)"
    by (rule brev_append [OF assms(1)])
  also have "brev (1 + p) (mid + 2 ^ 1 * hi) = 2 ^ p * brev 1 mid + brev p hi"
    by (rule brev_append [OF m])
  also have "brev 1 mid = midrev 2 mid" using assms(2) by (rule brev1)
  finally have "brev L (lo + 2 ^ p * (mid + 2 ^ 1 * hi)) =
      2 ^ (1 + p) * brev p lo + (2 ^ p * midrev 2 mid + brev p hi)"
    unfolding L .
  moreover have "idx 2 (2 ^ p) lo mid hi = lo + 2 ^ p * (mid + 2 ^ 1 * hi)"
    by (simp add: idx_alt)
  moreover have "idx 2 (2 ^ p) (brev p hi) (midrev 2 mid) (brev p lo) =
      2 ^ (1 + p) * brev p lo + (2 ^ p * midrev 2 mid + brev p hi)"
    by (simp add: idx_def)
  ultimately show ?thesis by (simp only:)
qed

lemma pattern_of_brev:
  assumes L: "L = p + e" and q: "q * 2 ^ p = 2 ^ e"
  shows "map (brev L) [0..<2 ^ p] = pattern_of q (2 ^ p) (brev p)"
proof -
  have "brev (p + e) k = 2 ^ e * brev p k" if "k < 2 ^ p" for k
    using that by (rule brev_low)
  then show ?thesis unfolding L by (simp add: pattern_of_def q)
qed

lemma bit_pattern_even:
  assumes "L = p + (2 + p)"
  shows "bit_pattern (2 ^ L) = Some (pattern_of 4 (2 ^ p) (brev p))"
proof -
  have "0 < L" "(L - 1) div 2 = p" using assms by simp_all
  moreover have "L = p + (p + 2)" using assms by simp
  then have "map (brev L) [0..<2 ^ p] = pattern_of 4 (2 ^ p) (brev p)"
    by (rule pattern_of_brev) (simp add: power_add)
  ultimately show ?thesis using bit_pattern_pow2 [of L] by simp
qed

lemma bit_pattern_odd:
  assumes "L = p + (1 + p)"
  shows "bit_pattern (2 ^ L) = Some (pattern_of 2 (2 ^ p) (brev p))"
proof -
  have "0 < L" "(L - 1) div 2 = p" using assms by simp_all
  moreover have "L = p + (p + 1)" using assms by simp
  then have "map (brev L) [0..<2 ^ p] = pattern_of 2 (2 ^ p) (brev p)"
    by (rule pattern_of_brev) (simp add: power_add)
  ultimately show ?thesis using bit_pattern_pow2 [of L] by simp
qed

lemma final_brev:
  assumes len: "length d = q * 2 ^ p * 2 ^ p"
    and nth: "\<And>lo mid hi. lo < 2 ^ p \<Longrightarrow> mid < q \<Longrightarrow> hi < 2 ^ p \<Longrightarrow>
      d ! idx q (2 ^ p) lo mid hi = x ! idx q (2 ^ p) (brev p hi) (midrev q mid) (brev p lo)"
    and q: "0 < q" and N: "q * 2 ^ p * 2 ^ p = (2::nat) ^ L"
    and br: "\<And>lo mid hi. lo < 2 ^ p \<Longrightarrow> mid < q \<Longrightarrow> hi < 2 ^ p \<Longrightarrow>
      brev L (idx q (2 ^ p) lo mid hi) = idx q (2 ^ p) (brev p hi) (midrev q mid) (brev p lo)"
  shows "d = map (\<lambda>i. x ! brev L i) [0..<2 ^ L]"
proof (rule nth_equalityI)
  show "length d = length (map (\<lambda>i. x ! brev L i) [0..<2 ^ L])"
    using len N by simp
next
  fix i assume "i < length d"
  then have i: "i < q * 2 ^ p * 2 ^ p" using len by simp
  have m: "0 < (2::nat) ^ p" by simp
  note dc = idx_decomp [OF m q i]
  have "d ! i = d ! idx q (2 ^ p) (i mod 2 ^ p) (i div 2 ^ p mod q) (i div (q * 2 ^ p))"
    using dc(1) by simp
  also have "\<dots> = x ! idx q (2 ^ p) (brev p (i div (q * 2 ^ p))) (midrev q (i div 2 ^ p mod q))
      (brev p (i mod 2 ^ p))"
    by (rule nth [OF dc(2,3,4)])
  also have "\<dots> = x ! brev L (idx q (2 ^ p) (i mod 2 ^ p) (i div 2 ^ p mod q) (i div (q * 2 ^ p)))"
    by (simp only: br [OF dc(2,3,4)])
  also have "\<dots> = x ! brev L i" using dc(1) by simp
  finally show "d ! i = map (\<lambda>i. x ! brev L i) [0..<2 ^ L] ! i"
    using i N by simp
qed

lemma swapped_final_brev:
  assumes inv: "swapped_inv q (2 ^ p) (brev p) x (done_upto (2 ^ p) 0) d"
    and q: "0 < q" and N: "q * 2 ^ p * 2 ^ p = (2::nat) ^ L"
    and br: "\<And>lo mid hi. lo < 2 ^ p \<Longrightarrow> mid < q \<Longrightarrow> hi < 2 ^ p \<Longrightarrow>
      brev L (idx q (2 ^ p) lo mid hi) = idx q (2 ^ p) (brev p hi) (midrev q mid) (brev p lo)"
  shows "d = map (\<lambda>i. x ! brev L i) [0..<2 ^ L]"
proof (rule final_brev [OF _ _ q N br])
  show "length d = q * 2 ^ p * 2 ^ p" by (rule swapped_inv_final(1) [OF inv])
  show "d ! idx q (2 ^ p) lo mid hi = x ! idx q (2 ^ p) (brev p hi) (midrev q mid) (brev p lo)"
    if "lo < 2 ^ p" "mid < q" "hi < 2 ^ p" for lo mid hi
    by (rule swapped_inv_final(2) [OF inv that]) (rule brev_lt)
qed

lemma even_odd_split:
  assumes "0 < (L::nat)"
  obtains p where "even L" "L = p + (2 + p)" | p where "odd L" "L = p + (1 + p)"
proof (cases "even L")
  case True
  then have "L = (L - 2) div 2 + (2 + (L - 2) div 2)" using assms by presburger
  with True that(1) show ?thesis by blast
next
  case False
  then have "L = (L - 1) div 2 + (1 + (L - 1) div 2)" by presburger
  with False that(2) show ?thesis by blast
qed

lemma pow2_split: "L = p + (e + p) \<Longrightarrow> 2 ^ e * 2 ^ p * 2 ^ p = (2::nat) ^ L"
  by (simp add: power_add)

lemma reindex_brev:
  assumes L: "0 < L" and len: "length x = 2 ^ L"
  shows "reindex (2 ^ L) x = Some (map (\<lambda>i. x ! brev L i) [0..<2 ^ L])"
  using L
proof (cases L rule: even_odd_split)
  case (1 p)
  have N: "4 * 2 ^ p * 2 ^ p = (2::nat) ^ L" using pow2_split [OF 1(2)] by simp
  have lx: "length x = 4 * 2 ^ p * 2 ^ p" using len N by simp
  from reindex4_loop [OF rev_ok_brev lx] obtain d where
    d: "for_loop 0 (2 ^ p) (reindex_row4 (pattern_of 4 (2 ^ p) (brev p))) x = Some d"
    "swapped_inv 4 (2 ^ p) (brev p) x (done_upto (2 ^ p) 0) d"
    by blast
  have "d = map (\<lambda>i. x ! brev L i) [0..<2 ^ L]"
    by (rule swapped_final_brev [OF d(2) _ N]) (simp_all add: brev_idx4 [OF _ _ _ 1(2)])
  moreover have "ispow4 (2 ^ L)" using 1(1) L by (simp add: ispow4_pow2)
  ultimately show ?thesis
    using d(1) bit_pattern_even [OF 1(2)] by (simp add: reindex_def)
next
  case (2 p)
  have N: "2 * 2 ^ p * 2 ^ p = (2::nat) ^ L" using pow2_split [OF 2(2)] by simp
  have lx: "length x = 2 * 2 ^ p * 2 ^ p" using len N by simp
  from reindex2_loop [OF rev_ok_brev _ lx] obtain d where
    d: "for_loop 1 (2 ^ p) (reindex_row2 (pattern_of 2 (2 ^ p) (brev p))) x = Some d"
    "swapped_inv 2 (2 ^ p) (brev p) x (done_upto (2 ^ p) 0) d"
    by auto
  have "d = map (\<lambda>i. x ! brev L i) [0..<2 ^ L]"
    by (rule swapped_final_brev [OF d(2) _ N]) (simp_all add: brev_idx2 [OF _ _ _ 2(2)])
  moreover have "\<not> ispow4 (2 ^ L)" using 2(1) L by (simp add: ispow4_pow2)
  ultimately show ?thesis
    using d(1) bit_pattern_odd [OF 2(2)] by (simp add: reindex_def)
qed

section \<open>Reindexing twice\<close>

lemma reindex_twice:
  assumes L: "0 < L" and len: "length x = 2 ^ L"
  shows "reindex (2 ^ L) (map (\<lambda>i. x ! brev L i) [0..<2 ^ L]) = Some x"
proof -
  let ?y = "map (\<lambda>i. x ! brev L i) [0..<2 ^ L]"
  have ly: "length ?y = 2 ^ L" by simp
  have "map (\<lambda>i. ?y ! brev L i) [0..<2 ^ L] = map (\<lambda>i. x ! i) [0..<2 ^ L]"
    by (rule map_cong) (simp_all add: brev_lt brev_invol)
  also have "\<dots> = x" using map_nth [of x] len by simp
  finally show ?thesis using reindex_brev [OF L ly] by simp
qed

text \<open>
  Claim C9. For every power-of-two length \<open>N = 2 ^ L > 1\<close> and every sequence \<open>x\<close> of
  length \<open>N\<close>, the in-place reindexing applied twice gives \<open>x\<close> back.
\<close>

theorem reindex_involution:
  assumes "0 < L" and "length x = 2 ^ L"
  shows "do { y \<leftarrow> reindex (2 ^ L) x; reindex (2 ^ L) y } = Some x"
  using reindex_brev [OF assms] reindex_twice [OF assms] by simp

theorem reindex_involution_witness:
  "(0::nat) < 2 \<and> length [10, 11, 12, 13::nat] = 2 ^ 2 \<and>
   do { y \<leftarrow> reindex (2 ^ 2) [10, 11, 12, 13::nat]; reindex (2 ^ 2) y } = Some [10, 11, 12, 13]"
  using reindex_involution [of 2 "[10, 11, 12, 13::nat]"] by simp

section \<open>Out-of-place reindexing is the bit reversal permutation\<close>

lemma assign_Some:
  "s < length (in_buf b) \<Longrightarrow> d < length (out_buf b) \<Longrightarrow>
   assign d s b = Some (b\<lparr>out_buf := (out_buf b)[d := in_buf b ! s]\<rparr>)"
  by (simp add: assign_def)

lemma copied_inv_weaken:
  assumes ok: "rev_ok m r" and inv: "copied_inv q m r x Wn b"
    and imp: "\<And>a c b. a < m \<Longrightarrow> c < q \<Longrightarrow> b < m \<Longrightarrow> Wn' a c b \<Longrightarrow> Wn a c b"
  shows "copied_inv q m r x Wn' b"
  unfolding copied_inv_def
proof (intro conjI allI impI)
  show "in_buf b = x" "length (out_buf b) = q * m * m"
    using inv by (simp_all add: copied_inv_def)
next
  fix lo mid hi assume t: "lo < m" "mid < q" "hi < m" and w: "Wn' lo mid (r hi)"
  have "r hi < m" using ok t(3) by (rule rev_okD)
  from imp [OF t(1,2) this w] inv t
  show "out_buf b ! idx q m lo mid hi = x ! idx q m (r hi) (midrev q mid) (r lo)"
    by (simp add: copied_inv_def)
qed

lemma assign_one:
  assumes ok: "rev_ok m r" and len: "length x = q * m * m"
    and inv: "copied_inv q m r x Wn s"
    and a: "a < m" and c: "c < q" and b: "b < m"
  shows "\<exists>s'. assign (idx q m a c (r b)) (idx q m b (midrev q c) (r a)) s = Some s' \<and>
       copied_inv q m r x (\<lambda>a' c' b'. Wn a' c' b' \<or> (a' = a \<and> c' = c \<and> b' = b)) s'"
proof -
  let ?i = "idx q m a c (r b)" and ?j = "idx q m b (midrev q c) (r a)"
  have ra: "r a < m" "r (r a) = a" and rb: "r b < m" "r (r b) = b"
    using ok a b by (simp_all add: rev_okD)
  have c': "midrev q c < q" using c by (rule midrev_lt)
  have ib: "in_buf s = x" and lo: "length (out_buf s) = q * m * m"
    using inv by (simp_all add: copied_inv_def)
  have i: "?i < length (out_buf s)" unfolding lo using a c rb(1) by (rule idx_lt)
  have j: "?j < length (in_buf s)" unfolding ib len using b c' ra(1) by (rule idx_lt)
  let ?s = "s\<lparr>out_buf := (out_buf s)[?i := in_buf s ! ?j]\<rparr>"
  have as: "assign ?i ?j s = Some ?s" using j i by (rule assign_Some)
  have "copied_inv q m r x (\<lambda>a' c' b'. Wn a' c' b' \<or> (a' = a \<and> c' = c \<and> b' = b)) ?s"
    unfolding copied_inv_def
  proof (intro conjI allI impI)
    show "in_buf ?s = x" using ib by simp
    show "length (out_buf ?s) = q * m * m" using lo by simp
  next
    fix lo mid hi assume t: "lo < m" "mid < q" "hi < m"
      and w: "Wn lo mid (r hi) \<or> lo = a \<and> mid = c \<and> r hi = b"
    let ?t = "idx q m lo mid hi"
    have "?t = ?i \<longleftrightarrow> lo = a \<and> mid = c \<and> hi = r b"
      using t(1) a t(2) c by (rule idx_inj)
    moreover have "hi = r b \<longleftrightarrow> r hi = b" using rev_ok_eq [OF ok t(3) b] by blast
    ultimately have ti: "?t = ?i \<longleftrightarrow> lo = a \<and> mid = c \<and> r hi = b" by simp
    show "out_buf ?s ! ?t = x ! idx q m (r hi) (midrev q mid) (r lo)"
    proof (cases "?t = ?i")
      case True
      then have e: "lo = a" "mid = c" "r hi = b" using ti by simp_all
      have "out_buf ?s ! ?t = x ! ?j" using True i ib by simp
      then show ?thesis using e by simp
    next
      case False
      then have "Wn lo mid (r hi)" using w ti by blast
      with inv t have "out_buf s ! ?t = x ! idx q m (r hi) (midrev q mid) (r lo)"
        by (simp add: copied_inv_def)
      moreover have "out_buf ?s ! ?t = out_buf s ! ?t" using False by simp
      ultimately show ?thesis by simp
    qed
  qed
  with as show ?thesis by blast
qed

lemma assign_pair:
  assumes ok: "rev_ok m r" and len: "length x = q * m * m"
    and inv: "copied_inv q m r x Wn s"
    and a: "a < m" and c: "c < q" and b: "b < m"
  shows "\<exists>s1 s'. assign (idx q m a c (r b)) (idx q m b (midrev q c) (r a)) s = Some s1 \<and>
       assign (idx q m b (midrev q c) (r a)) (idx q m a c (r b)) s1 = Some s' \<and>
       copied_inv q m r x (\<lambda>a' c' b'. Wn a' c' b' \<or> (a' = a \<and> c' = c \<and> b' = b) \<or>
          (a' = b \<and> c' = midrev q c \<and> b' = a)) s'"
proof -
  from assign_one [OF ok len inv a c b] obtain s1 where
    s1: "assign (idx q m a c (r b)) (idx q m b (midrev q c) (r a)) s = Some s1"
    "copied_inv q m r x (\<lambda>a' c' b'. Wn a' c' b' \<or> (a' = a \<and> c' = c \<and> b' = b)) s1" by blast
  from assign_one [OF ok len s1(2) b midrev_lt [OF c] a] obtain s2 where
    s2: "assign (idx q m b (midrev q c) (r a)) (idx q m a c (r b)) s1 = Some s2"
    "copied_inv q m r x (\<lambda>a' c' b'. (Wn a' c' b' \<or> (a' = a \<and> c' = c \<and> b' = b)) \<or>
        (a' = b \<and> c' = midrev q c \<and> b' = a)) s2" by auto
  from s2(2) have "copied_inv q m r x (\<lambda>a' c' b'. Wn a' c' b' \<or> (a' = a \<and> c' = c \<and> b' = b) \<or>
          (a' = b \<and> c' = midrev q c \<and> b' = a)) s2" by (simp only: disj_assoc)
  with s1(1) s2(1) show ?thesis by blast
qed

lemma reindex_copy4_idx:
  assumes "j < m" "k < m"
  shows "reindex_copy4 (pattern_of 4 m r) k j s = do {
     s \<leftarrow> assign (idx 4 m j 0 (r k)) (idx 4 m k (midrev 4 0) (r j)) s;
     s \<leftarrow> assign (idx 4 m k (midrev 4 0) (r j)) (idx 4 m j 0 (r k)) s;
     s \<leftarrow> assign (idx 4 m j 1 (r k)) (idx 4 m k (midrev 4 1) (r j)) s;
     s \<leftarrow> assign (idx 4 m k (midrev 4 1) (r j)) (idx 4 m j 1 (r k)) s;
     s \<leftarrow> assign (idx 4 m j 2 (r k)) (idx 4 m k (midrev 4 2) (r j)) s;
     s \<leftarrow> assign (idx 4 m k (midrev 4 2) (r j)) (idx 4 m j 2 (r k)) s;
     s \<leftarrow> assign (idx 4 m j 3 (r k)) (idx 4 m k (midrev 4 3) (r j)) s;
     assign (idx 4 m k (midrev 4 3) (r j)) (idx 4 m j 3 (r k)) s
   }"
  using assms by (simp add: reindex_copy4_def Let_def idx_def midrev_def algebra_simps)

lemma copy4_block:
  assumes ok: "rev_ok m r" and len: "length x = 4 * m * m"
    and inv: "copied_inv 4 m r x Wn s"
    and jk: "j < k" "k < m"
  shows "\<exists>s'. reindex_copy4 (pattern_of 4 m r) k j s = Some s' \<and>
     copied_inv 4 m r x (\<lambda>a c b. Wn a c b \<or> (a = j \<and> b = k) \<or> (a = k \<and> b = j)) s'"
proof -
  have j: "j < m" using jk by simp
  let ?D = "\<lambda>n a' c' b'. Wn a' c' b' \<or> (c' < n \<and> a' = j \<and> b' = k) \<or> (midrev 4 c' < n \<and> a' = k \<and> b' = j)"
  have step: "\<exists>s1 s'. assign (idx 4 m j c (r k)) (idx 4 m k (midrev 4 c) (r j)) s0 = Some s1 \<and>
       assign (idx 4 m k (midrev 4 c) (r j)) (idx 4 m j c (r k)) s1 = Some s' \<and>
       copied_inv 4 m r x (?D (Suc c)) s'"
    if c: "c < 4" and i0: "copied_inv 4 m r x (?D c) s0" for c s0
  proof -
    from assign_pair [OF ok len i0 j c jk(2)]
    obtain s1 s' where s': "assign (idx 4 m j c (r k)) (idx 4 m k (midrev 4 c) (r j)) s0 = Some s1"
      "assign (idx 4 m k (midrev 4 c) (r j)) (idx 4 m j c (r k)) s1 = Some s'"
      "copied_inv 4 m r x (\<lambda>a' c' b'. ?D c a' c' b' \<or> (a' = j \<and> c' = c \<and> b' = k) \<or>
                     (a' = k \<and> c' = midrev 4 c \<and> b' = j)) s'" by blast
    have "copied_inv 4 m r x (?D (Suc c)) s'"
    proof (rule copied_inv_weaken [OF ok s'(3)])
      fix a' c' b' :: nat assume "?D (Suc c) a' c' b'"
      moreover have "midrev 4 c' = c \<longleftrightarrow> c' = midrev 4 c" by (auto simp: midrev_def)
      ultimately show "?D c a' c' b' \<or> (a' = j \<and> c' = c \<and> b' = k) \<or>
                     (a' = k \<and> c' = midrev 4 c \<and> b' = j)"
        by (auto simp: less_Suc_eq)
    qed
    with s'(1,2) show ?thesis by blast
  qed
  have "copied_inv 4 m r x (?D 0) s" using inv by simp
  from step [OF _ this] obtain s1 s2 where
    s1: "assign (idx 4 m j 0 (r k)) (idx 4 m k (midrev 4 0) (r j)) s = Some s1"
    and s2: "assign (idx 4 m k (midrev 4 0) (r j)) (idx 4 m j 0 (r k)) s1 = Some s2"
    and i2: "copied_inv 4 m r x (?D 1) s2" by auto
  from step [of 1, OF _ i2] obtain s3 s4 where
    s3: "assign (idx 4 m j 1 (r k)) (idx 4 m k (midrev 4 1) (r j)) s2 = Some s3"
    and s4: "assign (idx 4 m k (midrev 4 1) (r j)) (idx 4 m j 1 (r k)) s3 = Some s4"
    and i4: "copied_inv 4 m r x (?D 2) s4" by (auto simp: numeral_2_eq_2)
  from step [of 2, OF _ i4] obtain s5 s6 where
    s5: "assign (idx 4 m j 2 (r k)) (idx 4 m k (midrev 4 2) (r j)) s4 = Some s5"
    and s6: "assign (idx 4 m k (midrev 4 2) (r j)) (idx 4 m j 2 (r k)) s5 = Some s6"
    and i6: "copied_inv 4 m r x (?D 3) s6" by (auto simp: numeral_3_eq_3 numeral_2_eq_2)
  from step [of 3, OF _ i6] obtain s7 s8 where
    s7: "assign (idx 4 m j 3 (r k)) (idx 4 m k (midrev 4 3) (r j)) s6 = Some s7"
    and s8: "assign (idx 4 m k (midrev 4 3) (r j)) (idx 4 m j 3 (r k)) s7 = Some s8"
    and i8: "copied_inv 4 m r x (?D 4) s8" by (auto simp: numeral_3_eq_3 eval_nat_numeral)
  have "copied_inv 4 m r x (\<lambda>a c b. Wn a c b \<or> (a = j \<and> b = k) \<or> (a = k \<and> b = j)) s8"
  proof (rule copied_inv_weaken [OF ok i8])
    fix a' c' b' :: nat assume "c' < 4"
    then have "midrev 4 c' < 4" by (rule midrev_lt)
    moreover assume "Wn a' c' b' \<or> (a' = j \<and> b' = k) \<or> (a' = k \<and> b' = j)"
    ultimately show "?D 4 a' c' b'" using \<open>c' < 4\<close> by simp
  qed
  moreover have "reindex_copy4 (pattern_of 4 m r) k j s = Some s8"
    by (simp only: reindex_copy4_idx [OF j jk(2)] s1 s2 s3 s4 s5 s6 s7 s8 bind.bind_lunit)
  ultimately show ?thesis by blast
qed

lemma reindex_copy_row4_idx:
  assumes "k < m"
  shows "reindex_copy_row4 (pattern_of 4 m r) k s = do {
     s \<leftarrow> for_loop 0 k (reindex_copy4 (pattern_of 4 m r) k) s;
     s \<leftarrow> assign (idx 4 m k 0 (r k)) (idx 4 m k (midrev 4 0) (r k)) s;
     s \<leftarrow> assign (idx 4 m k 1 (r k)) (idx 4 m k (midrev 4 1) (r k)) s;
     s \<leftarrow> assign (idx 4 m k (midrev 4 1) (r k)) (idx 4 m k 1 (r k)) s;
     assign (idx 4 m k 3 (r k)) (idx 4 m k (midrev 4 3) (r k)) s
   }"
  using assms by (simp add: reindex_copy_row4_def Let_def idx_def midrev_def algebra_simps)

lemma copy_row4:
  assumes ok: "rev_ok m r" and len: "length x = 4 * m * m" and k: "k < m"
    and inv: "copied_inv 4 m r x (done_upto k 0) s"
  shows "\<exists>s'. reindex_copy_row4 (pattern_of 4 m r) k s = Some s' \<and>
     copied_inv 4 m r x (done_upto (Suc k) 0) s'"
proof -
  have "\<exists>s'. for_loop 0 k (reindex_copy4 (pattern_of 4 m r) k) s = Some s' \<and>
     copied_inv 4 m r x (done_upto k k) s'"
  proof (rule for_loop_rule [where I = "\<lambda>j. copied_inv 4 m r x (done_upto k j)"])
    show "copied_inv 4 m r x (done_upto k 0) s" by (rule inv)
    show "0 \<le> k" by simp
  next
    fix j t assume j: "j < k" and t: "copied_inv 4 m r x (done_upto k j) t"
    from copy4_block [OF ok len t j k] obtain t' where
      t': "reindex_copy4 (pattern_of 4 m r) k j t = Some t'"
      "copied_inv 4 m r x (\<lambda>a c b. done_upto k j a c b \<or> (a = j \<and> b = k) \<or> (a = k \<and> b = j)) t'"
      by blast
    from t'(2) have "copied_inv 4 m r x (done_upto k (Suc j)) t'"
      by (simp only: done_upto_step [OF j])
    with t'(1) show "\<exists>t'. reindex_copy4 (pattern_of 4 m r) k j t = Some t' \<and>
       copied_inv 4 m r x (done_upto k (Suc j)) t'" by blast
  qed
  then obtain s0 where s0: "for_loop 0 k (reindex_copy4 (pattern_of 4 m r) k) s = Some s0"
    and i0: "copied_inv 4 m r x (done_upto k k) s0" by blast
  from assign_one [OF ok len i0 k _ k, of 0] obtain s1 where
    s1: "assign (idx 4 m k 0 (r k)) (idx 4 m k (midrev 4 0) (r k)) s0 = Some s1"
    and i1: "copied_inv 4 m r x (\<lambda>a' c' b'. done_upto k k a' c' b' \<or> (a' = k \<and> c' = 0 \<and> b' = k)) s1"
      (is "copied_inv 4 m r x ?D1 s1")
    by auto
  from assign_pair [OF ok len i1 k _ k, of 1] obtain s2 s3 where
    s2: "assign (idx 4 m k 1 (r k)) (idx 4 m k (midrev 4 1) (r k)) s1 = Some s2"
    and s3: "assign (idx 4 m k (midrev 4 1) (r k)) (idx 4 m k 1 (r k)) s2 = Some s3"
    and i3: "copied_inv 4 m r x (\<lambda>a' c' b'. ?D1 a' c' b' \<or> (a' = k \<and> c' = 1 \<and> b' = k) \<or>
          (a' = k \<and> c' = midrev 4 1 \<and> b' = k)) s3" (is "copied_inv 4 m r x ?D3 s3")
    by auto
  from assign_one [OF ok len i3 k _ k, of 3] obtain s4 where
    s4: "assign (idx 4 m k 3 (r k)) (idx 4 m k (midrev 4 3) (r k)) s3 = Some s4"
    and i4: "copied_inv 4 m r x (\<lambda>a' c' b'. ?D3 a' c' b' \<or> (a' = k \<and> c' = 3 \<and> b' = k)) s4"
    by auto
  have "copied_inv 4 m r x (done_upto (Suc k) 0) s4"
  proof (rule copied_inv_weaken [OF ok i4])
    fix a' c' b' :: nat assume "c' < 4"
    then have "c' = 0 \<or> c' = 1 \<or> c' = 2 \<or> c' = 3" by (rule lt4_cases)
    moreover assume "done_upto (Suc k) 0 a' c' b'"
    ultimately show "?D3 a' c' b' \<or> (a' = k \<and> c' = 3 \<and> b' = k)"
      by (auto simp: done_upto_def midrev_def max_def min_def less_Suc_eq split: if_splits)
  qed
  moreover have "reindex_copy_row4 (pattern_of 4 m r) k s = Some s4"
    by (simp only: reindex_copy_row4_idx [OF k] s0 s1 s2 s3 s4 bind.bind_lunit)
  ultimately show ?thesis by blast
qed

lemma reindex_copy4_loop:
  assumes ok: "rev_ok m r" and len: "length (in_buf s) = 4 * m * m"
    and lo: "length (out_buf s) = 4 * m * m"
  shows "\<exists>s'. for_loop 0 m (reindex_copy_row4 (pattern_of 4 m r)) s = Some s' \<and>
     copied_inv 4 m r (in_buf s) (done_upto m 0) s'"
proof (rule for_loop_rule [where I = "\<lambda>k. copied_inv 4 m r (in_buf s) (done_upto k 0)"])
  show "copied_inv 4 m r (in_buf s) (done_upto 0 0) s"
    using lo by (simp add: copied_inv_def done_upto_def)
  show "0 \<le> m" by simp
next
  fix k t assume "k < m" "copied_inv 4 m r (in_buf s) (done_upto k 0) t"
  then show "\<exists>t'. reindex_copy_row4 (pattern_of 4 m r) k t = Some t' \<and>
     copied_inv 4 m r (in_buf s) (done_upto (Suc k) 0) t'"
    by (rule copy_row4 [OF ok len])
qed

lemma reindex_copy2_idx:
  assumes "j < m" "k < m"
  shows "reindex_copy2 (pattern_of 2 m r) k j s = do {
     s \<leftarrow> assign (idx 2 m j 0 (r k)) (idx 2 m k (midrev 2 0) (r j)) s;
     s \<leftarrow> assign (idx 2 m k (midrev 2 0) (r j)) (idx 2 m j 0 (r k)) s;
     s \<leftarrow> assign (idx 2 m j 1 (r k)) (idx 2 m k (midrev 2 1) (r j)) s;
     assign (idx 2 m k (midrev 2 1) (r j)) (idx 2 m j 1 (r k)) s
   }"
  using assms by (simp add: reindex_copy2_def Let_def idx_def midrev_def algebra_simps)

lemma copy2_block:
  assumes ok: "rev_ok m r" and len: "length x = 2 * m * m"
    and inv: "copied_inv 2 m r x Wn s"
    and jk: "j < k" "k < m"
  shows "\<exists>s'. reindex_copy2 (pattern_of 2 m r) k j s = Some s' \<and>
     copied_inv 2 m r x (\<lambda>a c b. Wn a c b \<or> (a = j \<and> b = k) \<or> (a = k \<and> b = j)) s'"
proof -
  have j: "j < m" using jk by simp
  from assign_pair [OF ok len inv j _ jk(2), of 0] obtain s1 s2 where
    s1: "assign (idx 2 m j 0 (r k)) (idx 2 m k (midrev 2 0) (r j)) s = Some s1"
    and s2: "assign (idx 2 m k (midrev 2 0) (r j)) (idx 2 m j 0 (r k)) s1 = Some s2"
    and i2: "copied_inv 2 m r x (\<lambda>a' c' b'. Wn a' c' b' \<or> (a' = j \<and> c' = 0 \<and> b' = k) \<or>
          (a' = k \<and> c' = midrev 2 0 \<and> b' = j)) s2" (is "copied_inv 2 m r x ?D2 s2")
    by auto
  from assign_pair [OF ok len i2 j _ jk(2), of 1] obtain s3 s4 where
    s3: "assign (idx 2 m j 1 (r k)) (idx 2 m k (midrev 2 1) (r j)) s2 = Some s3"
    and s4: "assign (idx 2 m k (midrev 2 1) (r j)) (idx 2 m j 1 (r k)) s3 = Some s4"
    and i4: "copied_inv 2 m r x (\<lambda>a' c' b'. ?D2 a' c' b' \<or> (a' = j \<and> c' = 1 \<and> b' = k) \<or>
          (a' = k \<and> c' = midrev 2 1 \<and> b' = j)) s4" (is "copied_inv 2 m r x ?D4 s4")
    by auto
  have "copied_inv 2 m r x (\<lambda>a c b. Wn a c b \<or> (a = j \<and> b = k) \<or> (a = k \<and> b = j)) s4"
  proof (rule copied_inv_weaken [OF ok i4])
    fix a' c' b' :: nat assume "c' < 2"
    then have "c' = 0 \<or> c' = 1" by arith
    moreover assume "Wn a' c' b' \<or> (a' = j \<and> b' = k) \<or> (a' = k \<and> b' = j)"
    ultimately show "?D4 a' c' b'" by (auto simp: midrev_def)
  qed
  moreover have "reindex_copy2 (pattern_of 2 m r) k j s = Some s4"
    by (simp only: reindex_copy2_idx [OF j jk(2)] s1 s2 s3 s4 bind.bind_lunit)
  ultimately show ?thesis by blast
qed

lemma reindex_copy_row2_idx:
  assumes "k < m"
  shows "reindex_copy_row2 (pattern_of 2 m r) k s = do {
     s \<leftarrow> for_loop 0 k (reindex_copy2 (pattern_of 2 m r) k) s;
     s \<leftarrow> assign (idx 2 m k 0 (r k)) (idx 2 m k (midrev 2 0) (r k)) s;
     assign (idx 2 m k 1 (r k)) (idx 2 m k (midrev 2 1) (r k)) s
   }"
  using assms by (simp add: reindex_copy_row2_def Let_def idx_def midrev_def algebra_simps)

lemma copy_row2:
  assumes ok: "rev_ok m r" and len: "length x = 2 * m * m" and k: "k < m"
    and inv: "copied_inv 2 m r x (done_upto k 0) s"
  shows "\<exists>s'. reindex_copy_row2 (pattern_of 2 m r) k s = Some s' \<and>
     copied_inv 2 m r x (done_upto (Suc k) 0) s'"
proof -
  have "\<exists>s'. for_loop 0 k (reindex_copy2 (pattern_of 2 m r) k) s = Some s' \<and>
     copied_inv 2 m r x (done_upto k k) s'"
  proof (rule for_loop_rule [where I = "\<lambda>j. copied_inv 2 m r x (done_upto k j)"])
    show "copied_inv 2 m r x (done_upto k 0) s" by (rule inv)
    show "0 \<le> k" by simp
  next
    fix j t assume j: "j < k" and t: "copied_inv 2 m r x (done_upto k j) t"
    from copy2_block [OF ok len t j k] obtain t' where
      t': "reindex_copy2 (pattern_of 2 m r) k j t = Some t'"
      "copied_inv 2 m r x (\<lambda>a c b. done_upto k j a c b \<or> (a = j \<and> b = k) \<or> (a = k \<and> b = j)) t'"
      by blast
    from t'(2) have "copied_inv 2 m r x (done_upto k (Suc j)) t'"
      by (simp only: done_upto_step [OF j])
    with t'(1) show "\<exists>t'. reindex_copy2 (pattern_of 2 m r) k j t = Some t' \<and>
       copied_inv 2 m r x (done_upto k (Suc j)) t'" by blast
  qed
  then obtain s0 where s0: "for_loop 0 k (reindex_copy2 (pattern_of 2 m r) k) s = Some s0"
    and i0: "copied_inv 2 m r x (done_upto k k) s0" by blast
  from assign_one [OF ok len i0 k _ k, of 0] obtain s1 where
    s1: "assign (idx 2 m k 0 (r k)) (idx 2 m k (midrev 2 0) (r k)) s0 = Some s1"
    and i1: "copied_inv 2 m r x (\<lambda>a' c' b'. done_upto k k a' c' b' \<or> (a' = k \<and> c' = 0 \<and> b' = k)) s1"
      (is "copied_inv 2 m r x ?D1 s1")
    by auto
  from assign_one [OF ok len i1 k _ k, of 1] obtain s2 where
    s2: "assign (idx 2 m k 1 (r k)) (idx 2 m k (midrev 2 1) (r k)) s1 = Some s2"
    and i2: "copied_inv 2 m r x (\<lambda>a' c' b'. ?D1 a' c' b' \<or> (a' = k \<and> c' = 1 \<and> b' = k)) s2"
    by auto
  have "copied_inv 2 m r x (done_upto (Suc k) 0) s2"
  proof (rule copied_inv_weaken [OF ok i2])
    fix a' c' b' :: nat assume "c' < 2"
    then have "c' = 0 \<or> c' = 1" by arith
    moreover assume "done_upto (Suc k) 0 a' c' b'"
    ultimately show "?D1 a' c' b' \<or> (a' = k \<and> c' = 1 \<and> b' = k)"
      by (auto simp: done_upto_def max_def min_def less_Suc_eq split: if_splits)
  qed
  moreover have "reindex_copy_row2 (pattern_of 2 m r) k s = Some s2"
    by (simp only: reindex_copy_row2_idx [OF k] s0 s1 s2 bind.bind_lunit)
  ultimately show ?thesis by blast
qed

lemma reindex_copy2_loop:
  assumes ok: "rev_ok m r" and m: "0 < m" and len: "length (in_buf s) = 2 * m * m"
    and lo: "length (out_buf s) = 2 * m * m"
  shows "\<exists>s'. do { s \<leftarrow> assign 0 0 s; s \<leftarrow> assign m m s;
                   for_loop 1 m (reindex_copy_row2 (pattern_of 2 m r)) s } = Some s' \<and>
     copied_inv 2 m r (in_buf s) (done_upto m 0) s'"
proof -
  let ?x = "in_buf s"
  have r0: "r 0 = 0" using ok by (simp add: rev_ok_def)
  have i0: "copied_inv 2 m r ?x (\<lambda>a c b. False) s"
    using lo by (simp add: copied_inv_def)
  from assign_one [OF ok len i0 m _ m, of 0] obtain s1 where
    s1: "assign 0 0 s = Some s1"
    and i1: "copied_inv 2 m r ?x (\<lambda>a' c' b'. False \<or> (a' = 0 \<and> c' = 0 \<and> b' = 0)) s1"
      (is "copied_inv 2 m r ?x ?D1 s1")
    by (auto simp: r0 idx_def midrev_def)
  from assign_one [OF ok len i1 m _ m, of 1] obtain s2 where
    s2: "assign m m s1 = Some s2"
    and i2: "copied_inv 2 m r ?x (\<lambda>a' c' b'. ?D1 a' c' b' \<or> (a' = 0 \<and> c' = 1 \<and> b' = 0)) s2"
    by (auto simp: r0 idx_def midrev_def)
  have i2': "copied_inv 2 m r ?x (done_upto 1 0) s2"
  proof (rule copied_inv_weaken [OF ok i2])
    fix a' c' b' :: nat assume "c' < 2"
    then have "c' = 0 \<or> c' = 1" by arith
    moreover assume "done_upto 1 0 a' c' b'"
    ultimately show "?D1 a' c' b' \<or> (a' = 0 \<and> c' = 1 \<and> b' = 0)"
      by (auto simp: done_upto_def)
  qed
  have "\<exists>s'. for_loop 1 m (reindex_copy_row2 (pattern_of 2 m r)) s2 = Some s' \<and>
     copied_inv 2 m r ?x (done_upto m 0) s'"
  proof (rule for_loop_rule [where I = "\<lambda>k. copied_inv 2 m r ?x (done_upto k 0)"])
    show "copied_inv 2 m r ?x (done_upto 1 0) s2" by (rule i2')
    show "1 \<le> m" using m by simp
  next
    fix k t assume "k < m" "copied_inv 2 m r ?x (done_upto k 0) t"
    then show "\<exists>t'. reindex_copy_row2 (pattern_of 2 m r) k t = Some t' \<and>
       copied_inv 2 m r ?x (done_upto (Suc k) 0) t'"
      by (rule copy_row2 [OF ok len])
  qed
  then show ?thesis using s1 s2 by simp
qed

lemma copied_final_brev:
  assumes inv: "copied_inv q (2 ^ p) (brev p) x (done_upto (2 ^ p) 0) s'"
    and q: "0 < q" and N: "q * 2 ^ p * 2 ^ p = (2::nat) ^ L"
    and br: "\<And>lo mid hi. lo < 2 ^ p \<Longrightarrow> mid < q \<Longrightarrow> hi < 2 ^ p \<Longrightarrow>
      brev L (idx q (2 ^ p) lo mid hi) = idx q (2 ^ p) (brev p hi) (midrev q mid) (brev p lo)"
  shows "out_buf s' = map (\<lambda>i. x ! brev L i) [0..<2 ^ L]" and "in_buf s' = x"
proof -
  show "in_buf s' = x" using inv by (simp add: copied_inv_def)
  show "out_buf s' = map (\<lambda>i. x ! brev L i) [0..<2 ^ L]"
  proof (rule final_brev [OF _ _ q N br])
    show "length (out_buf s') = q * 2 ^ p * 2 ^ p" using inv by (simp add: copied_inv_def)
    show "out_buf s' ! idx q (2 ^ p) lo mid hi =
        x ! idx q (2 ^ p) (brev p hi) (midrev q mid) (brev p lo)"
      if "lo < 2 ^ p" "mid < q" "hi < 2 ^ p" for lo mid hi
      using inv that brev_lt [of p hi] by (simp add: copied_inv_def done_upto_def)
  qed
qed

lemma reindex_copy_brev:
  fixes s :: "'a bufs"
  assumes L: "0 < L" and len: "length (in_buf s) = 2 ^ L" and lo: "length (out_buf s) = 2 ^ L"
  shows "reindex_copy (2 ^ L) s =
         Some (s\<lparr>out_buf := map (\<lambda>i. in_buf s ! brev L i) [0..<2 ^ L]\<rparr>)"
  using L
proof (cases L rule: even_odd_split)
  case (1 p)
  have N: "4 * 2 ^ p * 2 ^ p = (2::nat) ^ L" using pow2_split [OF 1(2)] by simp
  from reindex_copy4_loop [OF rev_ok_brev, of s p] obtain s' where
    s': "for_loop 0 (2 ^ p) (reindex_copy_row4 (pattern_of 4 (2 ^ p) (brev p))) s = Some s'"
    "copied_inv 4 (2 ^ p) (brev p) (in_buf s) (done_upto (2 ^ p) 0) s'"
    using len lo N by auto
  have "out_buf s' = map (\<lambda>i. in_buf s ! brev L i) [0..<2 ^ L]" "in_buf s' = in_buf s"
    by (rule copied_final_brev [OF s'(2) _ N]; simp add: brev_idx4 [OF _ _ _ 1(2)])+
  then have "s' = s\<lparr>out_buf := map (\<lambda>i. in_buf s ! brev L i) [0..<2 ^ L]\<rparr>"
    by (intro bufs.equality) simp_all
  moreover have "ispow4 (2 ^ L)" using 1(1) L by (simp add: ispow4_pow2)
  ultimately show ?thesis
    using s'(1) bit_pattern_even [OF 1(2)] by (simp add: reindex_copy_def)
next
  case (2 p)
  have N: "2 * 2 ^ p * 2 ^ p = (2::nat) ^ L" using pow2_split [OF 2(2)] by simp
  from reindex_copy2_loop [OF rev_ok_brev, of p s] obtain s' where
    s': "do { s \<leftarrow> assign 0 0 s; s \<leftarrow> assign (2 ^ p) (2 ^ p) s;
              for_loop 1 (2 ^ p) (reindex_copy_row2 (pattern_of 2 (2 ^ p) (brev p))) s } = Some s'"
    "copied_inv 2 (2 ^ p) (brev p) (in_buf s) (done_upto (2 ^ p) 0) s'"
    using len lo N by auto
  have "out_buf s' = map (\<lambda>i. in_buf s ! brev L i) [0..<2 ^ L]" "in_buf s' = in_buf s"
    by (rule copied_final_brev [OF s'(2) _ N]; simp add: brev_idx2 [OF _ _ _ 2(2)])+
  then have "s' = s\<lparr>out_buf := map (\<lambda>i. in_buf s ! brev L i) [0..<2 ^ L]\<rparr>"
    by (intro bufs.equality) simp_all
  moreover have "\<not> ispow4 (2 ^ L)" using 2(1) L by (simp add: ispow4_pow2)
  ultimately show ?thesis
    using s'(1) bit_pattern_odd [OF 2(2)] by (simp add: reindex_copy_def)
qed

section \<open>The butterfly computes the transform sum\<close>

lemma size_ok_pow2: "0 < L \<Longrightarrow> size_ok (2 ^ L)"
proof -
  assume L: "0 < L"
  have "(2::nat) ^ L AND (2 ^ L - 1) = take_bit L (2 ^ L)"
    by (simp add: take_bit_eq_mask mask_eq_exp_minus_1)
  also have "\<dots> = 0" by simp
  finally have "(2::nat) ^ L AND (2 ^ L - 1) = 0" .
  moreover have "(1::nat) < 2 ^ L" by (rule one_less_power) (use L in simp_all)
  ultimately show ?thesis by (simp add: size_ok_def)
qed

lemma omega_pow: "omega D N ^ n = cis (real n * (of_int D * 2 * pi / real N))"
  by (simp add: omega_def DeMoivre)

lemma omega_period:
  assumes "0 < N"
  shows "omega D N ^ N = 1"
proof -
  have "real N * (of_int D * 2 * pi / real N) = 2 * pi * of_int D" using assms by simp
  then show ?thesis by (simp add: omega_pow)
qed

lemma omega_pow4:
  assumes "0 < M"
  shows "omega D (4 * M) ^ 4 = omega D M"
proof -
  have "real 4 * (of_int D * 2 * pi / real (4 * M)) = of_int D * 2 * pi / real M"
    using assms by simp
  then show ?thesis unfolding omega_pow by (simp only: omega_def)
qed

lemma omega_quarter:
  assumes "0 < M" and "D = 1 \<or> D = - 1"
  shows "omega D (4 * M) ^ M = of_int D * \<i>"
proof -
  have "real M * (of_int D * 2 * pi / real (4 * M)) = of_int D * (pi / 2)"
    using assms by (simp add: field_simps)
  then show ?thesis using assms(2) unfolding omega_pow by auto
qed

lemma direction_omega:
  assumes "0 < M" and "D = 1 \<or> D = - 1"
  shows "direction D z = omega D (4 * M) ^ M * z"
  using assms(2) unfolding omega_quarter [OF assms]
  by (auto simp: direction_def complex_eq_iff)

lemma twiddles_omega:
  assumes "i < N div 4"
  shows "twiddles (real h) D N ! i = omega D N ^ (i * h)"
  unfolding omega_pow twiddles_nth [OF assms]
  by (simp add: cis.code mult_ac)

lemma t_omega:
  assumes "i < M"
  shows "t1 D (4 * M) ! i = omega D (4 * M) ^ i"
    and "t2 D (4 * M) ! i = omega D (4 * M) ^ (i * 2)"
    and "t3 D (4 * M) ! i = omega D (4 * M) ^ (i * 3)"
  using assms twiddles_omega [of i "4 * M" 1 D] twiddles_omega [of i "4 * M" 2 D]
    twiddles_omega [of i "4 * M" 3 D]
  by (simp_all add: t1_def t2_def t3_def)

lemma sum_split4:
  fixes f :: "nat \<Rightarrow> complex"
  shows "(\<Sum>n<4 * M. f n) = (\<Sum>n<M. f (4 * n) + f (4 * n + 1) + f (4 * n + 2) + f (4 * n + 3))"
proof (induction M)
  case 0
  show ?case by simp
next
  case (Suc M)
  have e: "4 * Suc M = Suc (Suc (Suc (Suc (4 * M))))" by simp
  have "(\<Sum>n<4 * Suc M. f n) =
      (\<Sum>n<4 * M. f n) + f (4 * M) + f (Suc (4 * M)) + f (Suc (Suc (4 * M))) +
        f (Suc (Suc (Suc (4 * M))))"
    by (simp only: e sum.lessThan_Suc)
  also have "\<dots> = (\<Sum>n<Suc M. f (4 * n) + f (4 * n + 1) + f (4 * n + 2) + f (4 * n + 3))"
    by (simp add: Suc add.assoc numeral_3_eq_3 numeral_2_eq_2)
  finally show ?case .
qed

lemma dft_sum_cong:
  assumes "\<And>n. n < N \<Longrightarrow> x n = y n"
  shows "dft_sum D N x k = dft_sum D N y k"
  unfolding dft_sum_def by (rule sum.cong) (simp_all add: assms)

lemma dft_radix4:
  assumes M: "0 < M" and i: "i < M"
  shows "dft_sum D (4 * M) x (i + c * M) =
    (\<Sum>r<4. (omega D (4 * M) ^ M) ^ (c * r) * (omega D (4 * M) ^ (i * r) *
        dft_sum D M (\<lambda>n. x (4 * n + r)) i))"
proof -
  let ?w = "omega D (4 * M)" and ?v = "omega D M"
  let ?k = "i + c * M"
  have v: "?v ^ (?k * n) = ?v ^ (i * n)" for n
  proof -
    have "?v ^ (?k * n) = ?v ^ (i * n) * (?v ^ M) ^ (c * n)"
      by (simp add: power_add power_mult [symmetric] algebra_simps)
    then show ?thesis by (simp add: omega_period [OF M])
  qed
  have tm: "x (4 * n + r) * ?w ^ (?k * (4 * n + r)) =
      (?w ^ M) ^ (c * r) * (?w ^ (i * r) * (x (4 * n + r) * ?v ^ (i * n)))" for n r
  proof -
    have "?w ^ (?k * (4 * n + r)) = (?w ^ 4) ^ (?k * n) * ?w ^ (?k * r)"
      by (simp add: power_add power_mult [symmetric] algebra_simps)
    also have "(?w ^ 4) ^ (?k * n) = ?v ^ (i * n)" by (simp only: omega_pow4 [OF M] v)
    also have "?w ^ (?k * r) = ?w ^ (i * r) * (?w ^ M) ^ (c * r)"
      by (simp add: power_add power_mult [symmetric] algebra_simps)
    finally show ?thesis by (simp add: mult_ac)
  qed
  have part: "(\<Sum>n<M. x (4 * n + r) * ?w ^ (?k * (4 * n + r))) =
      (?w ^ M) ^ (c * r) * (?w ^ (i * r) * dft_sum D M (\<lambda>n. x (4 * n + r)) i)" for r
    unfolding tm dft_sum_def by (simp add: sum_distrib_left)
  have "dft_sum D (4 * M) x ?k =
      (\<Sum>n<M. x (4 * n + 0) * ?w ^ (?k * (4 * n + 0))) +
      (\<Sum>n<M. x (4 * n + 1) * ?w ^ (?k * (4 * n + 1))) +
      (\<Sum>n<M. x (4 * n + 2) * ?w ^ (?k * (4 * n + 2))) +
      (\<Sum>n<M. x (4 * n + 3) * ?w ^ (?k * (4 * n + 3)))"
    unfolding dft_sum_def sum_split4 by (simp add: sum.distrib)
  also have "\<dots> = (\<Sum>r<4. (?w ^ M) ^ (c * r) * (?w ^ (i * r) * dft_sum D M (\<lambda>n. x (4 * n + r)) i))"
    unfolding part by (simp add: eval_nat_numeral lessThan_Suc)
  finally show ?thesis .
qed

lemma comb_radix4:
  assumes M: "0 < M" and D: "D = 1 \<or> D = - 1" and c: "c < 4"
  shows "comb D c u0 u1 u2 u3 =
     u0 + (omega D (4 * M) ^ M) ^ c * u1 + (omega D (4 * M) ^ M) ^ (c * 2) * u2 +
       (omega D (4 * M) ^ M) ^ (c * 3) * u3"
proof -
  define j where "j = omega D (4 * M) ^ M"
  have jj: "j * j = - 1" using D unfolding j_def omega_quarter [OF M D] by auto
  have jj': "j * (j * z) = - z" for z using jj by (simp add: mult.assoc [symmetric])
  have dir: "direction D z = j * z" for z unfolding j_def by (rule direction_omega [OF M D])
  have p2: "j ^ 2 = - 1" by (simp add: power2_eq_square jj)
  have p3: "j ^ 3 = - j" by (simp add: power3_eq_cube jj)
  have p4: "j ^ 4 = 1" using p2 by (simp add: power4_eq_xxxx jj mult.assoc)
  have p6: "j ^ 6 = - 1" using power_mult [of j 2 3] p2 by simp
  have p9: "j ^ 9 = j" using power_add [of j 8 1] power_mult [of j 2 4] p2 by simp
  from c have "c = 0 \<or> c = 1 \<or> c = 2 \<or> c = 3" by (rule lt4_cases)
  then show ?thesis unfolding j_def [symmetric]
    by (auto simp: comb_def dir p2 p3 p4 p6 p9 jj' algebra_simps)
qed

lemma brev_quarter:
  assumes "r < 4"
  shows "brev (Suc (Suc L)) (4 * n + r) = 2 ^ L * midrev 4 r + brev L n"
proof -
  have r: "r < 2 ^ 2" using assms by simp
  have "brev (2 + L) (r + 2 ^ 2 * n) = 2 ^ L * brev 2 r + brev L n"
    by (rule brev_append [OF r])
  moreover have "2 + L = Suc (Suc L)" "r + 2 ^ 2 * n = 4 * n + r" by simp_all
  ultimately show ?thesis using brev2 [OF assms] by (simp add: add.commute)
qed

lemma butterfly_value:
  assumes M: "M = 2 ^ L" and D: "D = 1 \<or> D = - 1" and i: "i < M" and c: "c < 4"
    and q0: "d ! (p + i) = dft_sum D M (\<lambda>n. data ! (p + brev L n)) i"
    and q1: "d ! (p + M + i) = dft_sum D M (\<lambda>n. data ! (p + M + brev L n)) i"
    and q2: "d ! (p + 2 * M + i) = dft_sum D M (\<lambda>n. data ! (p + 2 * M + brev L n)) i"
    and q3: "d ! (p + 3 * M + i) = dft_sum D M (\<lambda>n. data ! (p + 3 * M + brev L n)) i"
  shows "comb_at D M p d c i =
     dft_sum D (4 * M) (\<lambda>n. data ! (p + brev (Suc (Suc L)) n)) (i + c * M)"
proof -
  have Mpos: "0 < M" using M by simp
  let ?w = "omega D (4 * M)"
  let ?X = "\<lambda>n. data ! (p + brev (Suc (Suc L)) n)"
  have s0: "dft_sum D M (\<lambda>n. ?X (4 * n + 0)) i = d ! (p + i)"
    unfolding q0 by (simp add: brev_quarter [of 0, simplified] midrev_def)
  have s1: "dft_sum D M (\<lambda>n. ?X (4 * n + 1)) i = d ! (p + 2 * M + i)"
    unfolding q2 using brev_quarter [of 1 L] by (simp add: midrev_def M add.assoc mult_ac)
  have s2: "dft_sum D M (\<lambda>n. ?X (4 * n + 2)) i = d ! (p + M + i)"
    unfolding q1 using brev_quarter [of 2 L] by (simp add: midrev_def M add.assoc mult_ac)
  have s3: "dft_sum D M (\<lambda>n. ?X (4 * n + 3)) i = d ! (p + 3 * M + i)"
    unfolding q3 using brev_quarter [of 3 L] by (simp add: midrev_def M add.assoc mult_ac)
  have "dft_sum D (4 * M) ?X (i + c * M) =
      (\<Sum>r<4. (?w ^ M) ^ (c * r) * (?w ^ (i * r) * dft_sum D M (\<lambda>n. ?X (4 * n + r)) i))"
    by (rule dft_radix4 [OF Mpos i])
  also have "\<dots> = d ! (p + i) + (?w ^ M) ^ c * (?w ^ i * d ! (p + 2 * M + i)) +
      (?w ^ M) ^ (c * 2) * (?w ^ (i * 2) * d ! (p + M + i)) +
      (?w ^ M) ^ (c * 3) * (?w ^ (i * 3) * d ! (p + 3 * M + i))"
    using s0 s1 s2 s3 by (simp add: eval_nat_numeral lessThan_Suc)
  also have "\<dots> = comb_at D M p d c i"
    unfolding comb_at_def comb_radix4 [OF Mpos D c] t_omega [OF i] mul_times
    by (simp add: mult_ac)
  finally show ?thesis by simp
qed

lemma mix_rec:
  assumes "0 < M"
  shows "mix D (4 * M) p data = do {
     d \<leftarrow> mix D M p data;
     d \<leftarrow> mix D M (p + M) d;
     d \<leftarrow> mix D M (p + M * 2) d;
     d \<leftarrow> mix D M (p + M * 3) d;
     mix_combine D (4 * M) p d
   }"
  using assms by (subst mix.simps) (simp add: Let_def)

lemma mix_post_0: "mix_post D 0 p data data"
  by (simp add: mix_post_def dft_sum_def brev.simps)

lemma omega_2: "D = 1 \<or> D = - 1 \<Longrightarrow> omega D 2 = - 1"
  by (auto simp: omega_def complex_eq_iff)

lemma sum_2: "(\<Sum>n<2. f n) = f 0 + (f (1::nat) :: complex)"
  by (simp add: numeral_2_eq_2)

lemma brev_1: "brev (Suc 0) 0 = 0" "brev (Suc 0) (Suc 0) = Suc 0"
  by (simp_all add: brev.simps)

lemma mix_post_1:
  assumes D: "D = 1 \<or> D = - 1" and len: "p + 2 \<le> length data"
  shows "\<exists>d. mix2 p data = Some d \<and> mix_post D 1 p data d"
proof -
  let ?d = "data[p := data ! p + data ! (p + 1), p + 1 := data ! p - data ! (p + 1)]"
  have "mix2 p data = Some ?d" using len by (simp add: mix2_def)
  moreover have "mix_post D 1 p data ?d"
    unfolding mix_post_def
  proof (intro conjI allI impI)
    show "length ?d = length data" by simp
    show "?d ! j = data ! j" if "j < p \<or> p + 2 ^ 1 \<le> j" for j using that by auto
    show "?d ! (p + k) = dft_sum D (2 ^ 1) (\<lambda>n. data ! (p + brev 1 n)) k" if "k < 2 ^ 1" for k
    proof -
      have "k = 0 \<or> k = 1" using that by auto
      then show ?thesis using len
        by (auto simp: dft_sum_def omega_2 [OF D] sum_2 brev_1)
    qed
  qed
  ultimately show ?thesis by blast
qed

lemma mix_post_step:
  assumes M: "M = 2 ^ L" and D: "D = 1 \<or> D = - 1" and len: "p + 4 * M \<le> length data"
    and p1: "mix_post D L p data d1"
    and p2: "mix_post D L (p + M) d1 d2"
    and p3: "mix_post D L (p + M * 2) d2 d3"
    and p4: "mix_post D L (p + M * 3) d3 d4"
    and cb: "comb_inv D M p d4 M d5"
  shows "mix_post D (Suc (Suc L)) p data d5"
proof -
  have l1: "length d1 = length data" and l2: "length d2 = length data"
    and l3: "length d3 = length data" and l4: "length d4 = length data"
    using p1 p2 p3 p4 by (simp_all add: mix_post_def)
  have f1: "d1 ! j = data ! j" if "j < p \<or> p + M \<le> j" for j
    using p1 that by (auto simp: mix_post_def M)
  have f2: "d2 ! j = d1 ! j" if "j < p + M \<or> p + M + M \<le> j" for j
    using p2 that by (auto simp: mix_post_def M)
  have f3: "d3 ! j = d2 ! j" if "j < p + M * 2 \<or> p + M * 2 + M \<le> j" for j
    using p3 that by (auto simp: mix_post_def M)
  have f4: "d4 ! j = d3 ! j" if "j < p + M * 3 \<or> p + M * 3 + M \<le> j" for j
    using p4 that by (auto simp: mix_post_def M)
  have v1: "d1 ! (p + k) = dft_sum D M (\<lambda>n. data ! (p + brev L n)) k" if "k < M" for k
    using p1 that by (auto simp: mix_post_def M)
  have v2: "d2 ! (p + M + k) = dft_sum D M (\<lambda>n. d1 ! (p + M + brev L n)) k" if "k < M" for k
    using p2 that by (auto simp: mix_post_def M)
  have v3: "d3 ! (p + M * 2 + k) = dft_sum D M (\<lambda>n. d2 ! (p + M * 2 + brev L n)) k" if "k < M" for k
    using p3 that by (auto simp: mix_post_def M)
  have v4: "d4 ! (p + M * 3 + k) = dft_sum D M (\<lambda>n. d3 ! (p + M * 3 + brev L n)) k" if "k < M" for k
    using p4 that by (auto simp: mix_post_def M)
  have bl: "brev L n < M" for n unfolding M by (rule brev_lt)
  have q0: "d4 ! (p + i) = dft_sum D M (\<lambda>n. data ! (p + brev L n)) i" if "i < M" for i
  proof -
    have "d4 ! (p + i) = d1 ! (p + i)" using that by (simp add: f4 f3 f2)
    then show ?thesis using v1 [OF that] by simp
  qed
  have q1: "d4 ! (p + M + i) = dft_sum D M (\<lambda>n. data ! (p + M + brev L n)) i" if "i < M" for i
  proof -
    have "d4 ! (p + M + i) = d2 ! (p + M + i)" using that by (simp add: f4 f3)
    also have "\<dots> = dft_sum D M (\<lambda>n. d1 ! (p + M + brev L n)) i" by (rule v2 [OF that])
    also have "\<dots> = dft_sum D M (\<lambda>n. data ! (p + M + brev L n)) i"
      by (rule dft_sum_cong) (simp add: f1)
    finally show ?thesis .
  qed
  have q2: "d4 ! (p + 2 * M + i) = dft_sum D M (\<lambda>n. data ! (p + 2 * M + brev L n)) i" if "i < M" for i
  proof -
    have "d4 ! (p + M * 2 + i) = d3 ! (p + M * 2 + i)" using that by (simp add: f4)
    also have "\<dots> = dft_sum D M (\<lambda>n. d2 ! (p + M * 2 + brev L n)) i" by (rule v3 [OF that])
    also have "\<dots> = dft_sum D M (\<lambda>n. data ! (p + M * 2 + brev L n)) i"
      by (rule dft_sum_cong) (simp add: f1 f2)
    finally show ?thesis by (simp add: mult.commute)
  qed
  have q3: "d4 ! (p + 3 * M + i) = dft_sum D M (\<lambda>n. data ! (p + 3 * M + brev L n)) i" if "i < M" for i
  proof -
    have "d4 ! (p + M * 3 + i) = dft_sum D M (\<lambda>n. d3 ! (p + M * 3 + brev L n)) i" by (rule v4 [OF that])
    also have "\<dots> = dft_sum D M (\<lambda>n. data ! (p + M * 3 + brev L n)) i"
      by (rule dft_sum_cong) (simp add: f1 f2 f3)
    finally show ?thesis by (simp add: mult.commute)
  qed
  have N: "(2::nat) ^ Suc (Suc L) = 4 * M" by (simp add: M)
  have l5: "length d5 = length d4" using cb by (simp add: comb_inv_def)
  have f5: "d5 ! j = d4 ! j" if "j < p \<or> p + 4 * M \<le> j" for j
    using cb that by (auto simp: comb_inv_def)
  have v5: "d5 ! (p + i) = comb_at D M p d4 0 i \<and>
        d5 ! (p + M + i) = comb_at D M p d4 1 i \<and>
        d5 ! (p + 2 * M + i) = comb_at D M p d4 2 i \<and>
        d5 ! (p + 3 * M + i) = comb_at D M p d4 3 i" if "i < M" for i
    using cb that by (simp add: comb_inv_def)
  show ?thesis unfolding mix_post_def N
  proof (intro conjI allI impI)
    show "length d5 = length data" using l5 l4 by simp
  next
    fix j assume j: "j < p \<or> p + 4 * M \<le> j"
    then have "d5 ! j = d4 ! j" by (rule f5)
    also have "\<dots> = data ! j" using j by (auto simp: f4 f3 f2 f1)
    finally show "d5 ! j = data ! j" .
  next
    fix k assume k: "k < 4 * M"
    define i where "i = k mod M"
    define c where "c = k div M"
    have Mpos: "0 < M" using M by simp
    have i: "i < M" using Mpos by (simp add: i_def)
    have c: "c < 4" using k Mpos by (simp add: c_def less_mult_imp_div_less)
    have kk: "k = i + c * M" by (simp add: i_def c_def)
    have bv: "comb_at D M p d4 c i =
        dft_sum D (4 * M) (\<lambda>n. data ! (p + brev (Suc (Suc L)) n)) (i + c * M)"
      by (rule butterfly_value [OF M D i c q0 [OF i] q1 [OF i] q2 [OF i] q3 [OF i]])
    from c have "c = 0 \<or> c = 1 \<or> c = 2 \<or> c = 3" by (rule lt4_cases)
    moreover have "p + (i + 0 * M) = p + i" "p + (i + 1 * M) = p + M + i"
      "p + (i + 2 * M) = p + 2 * M + i" "p + (i + 3 * M) = p + 3 * M + i" by simp_all
    ultimately have "d5 ! (p + (i + c * M)) = comb_at D M p d4 c i"
      using v5 [OF i] by (elim disjE) (simp_all only:)
    then show "d5 ! (p + k) = dft_sum D (4 * M) (\<lambda>n. data ! (p + brev (Suc (Suc L)) n)) k"
      unfolding bv kk .
  qed
qed

lemma mix_spec:
  assumes D: "D = 1 \<or> D = - 1"
  shows "p + 2 ^ L \<le> length data \<Longrightarrow> \<exists>d. mix D (2 ^ L) p data = Some d \<and> mix_post D L p data d"
proof (induction L arbitrary: p data rule: less_induct)
  case (less L)
  consider "L = 0" | "L = 1" | K where "L = Suc (Suc K)"
    by (metis One_nat_def not0_implies_Suc)
  then show ?case
  proof cases
    case 1
    then show ?thesis by (subst mix.simps) (simp add: mix_post_0)
  next
    case 2
    have "mix D (2 ^ L) p data = mix2 p data" unfolding 2 by (subst mix.simps) simp
    then show ?thesis using mix_post_1 [OF D, of p data] less.prems by (simp add: 2)
  next
    case (3 K)
    define M :: nat where "M = 2 ^ K"
    have M: "M = 2 ^ K" by (rule M_def)
    have Mpos: "0 < M" by (simp add: M)
    have N: "(2::nat) ^ L = 4 * M" by (simp add: 3 M)
    have len: "p + 4 * M \<le> length data" using less.prems N by simp
    have K: "K < L" by (simp add: 3)
    from less.IH [OF K, of p data] obtain d1 where
      d1: "mix D M p data = Some d1" "mix_post D K p data d1" using len by (auto simp: M)
    have l1: "length d1 = length data" using d1(2) by (simp add: mix_post_def)
    from less.IH [OF K, of "p + M" d1] obtain d2 where
      d2: "mix D M (p + M) d1 = Some d2" "mix_post D K (p + M) d1 d2" using len l1 by (auto simp: M)
    have l2: "length d2 = length data" using d2(2) l1 by (simp add: mix_post_def)
    from less.IH [OF K, of "p + M * 2" d2] obtain d3 where
      d3: "mix D M (p + M * 2) d2 = Some d3" "mix_post D K (p + M * 2) d2 d3"
      using len l2 by (auto simp: M)
    have l3: "length d3 = length data" using d3(2) l2 by (simp add: mix_post_def)
    from less.IH [OF K, of "p + M * 3" d3] obtain d4 where
      d4: "mix D M (p + M * 3) d3 = Some d4" "mix_post D K (p + M * 3) d3 d4"
      using len l3 by (auto simp: M)
    have l4: "length d4 = length data" using d4(2) l3 by (simp add: mix_post_def)
    from mix_combine_inv [OF Mpos, of p d4 D] obtain d5 where
      d5: "mix_combine D (4 * M) p d4 = Some d5" "comb_inv D M p d4 M d5"
      using len l4 by auto
    have "mix_post D (Suc (Suc K)) p data d5"
      by (rule mix_post_step [OF M D len d1(2) d2(2) d3(2) d4(2) d5(2)])
    moreover have "mix D (2 ^ L) p data = Some d5"
      unfolding N by (simp only: mix_rec [OF Mpos] d1 d2 d3 d4 d5 bind.bind_lunit)
    ultimately show ?thesis by (simp add: 3)
  qed
qed

section \<open>The entry points compute the transform sum\<close>

lemma mix_brev:
  assumes D: "D = 1 \<or> D = - 1" and len: "length x = 2 ^ L"
  shows "mix D (2 ^ L) 0 (map (\<lambda>i. x ! brev L i) [0..<2 ^ L]) =
         Some (map (dft_sum D (2 ^ L) (\<lambda>n. x ! n)) [0..<2 ^ L])"
proof -
  let ?y = "map (\<lambda>i. x ! brev L i) [0..<2 ^ L]"
  have "0 + 2 ^ L \<le> length ?y" by simp
  from mix_spec [OF D this] obtain d where
    d: "mix D (2 ^ L) 0 ?y = Some d" "mix_post D L 0 ?y d" by blast
  have ld: "length d = 2 ^ L" using d(2) by (simp add: mix_post_def)
  have "d ! k = dft_sum D (2 ^ L) (\<lambda>n. x ! n) k" if k: "k < 2 ^ L" for k
  proof -
    have "d ! k = dft_sum D (2 ^ L) (\<lambda>n. ?y ! (0 + brev L n)) k"
      using d(2) k unfolding mix_post_def by (metis add_0)
    also have "\<dots> = dft_sum D (2 ^ L) (\<lambda>n. x ! n) k"
      by (rule dft_sum_cong) (simp add: brev_lt brev_invol)
    finally show ?thesis .
  qed
  then have "d = map (dft_sum D (2 ^ L) (\<lambda>n. x ! n)) [0..<2 ^ L]"
    using ld by (intro nth_equalityI) simp_all
  with d(1) show ?thesis by simp
qed

lemma dft_dft_sum:
  assumes "0 < L" and "length x = 2 ^ L"
  shows "dft (2 ^ L) x = Some (map (dft_sum (- 1) (2 ^ L) (\<lambda>n. x ! n)) [0..<2 ^ L])"
  using assms by (simp add: dft_def size_ok_pow2 reindex_brev mix_brev)

lemma idft_dft_sum:
  assumes "0 < L" and "length x = 2 ^ L"
  shows "idft (2 ^ L) x = Some (map (dft_sum 1 (2 ^ L) (\<lambda>n. x ! n)) [0..<2 ^ L])"
  using assms by (simp add: idft_def size_ok_pow2 reindex_brev mix_brev)

lemma dft2_dft_sum:
  assumes "0 < L" and "length (in_buf s) = 2 ^ L" and "length (out_buf s) = 2 ^ L"
  shows "dft2 (2 ^ L) s =
     Some (s\<lparr>out_buf := map (dft_sum (- 1) (2 ^ L) (\<lambda>n. in_buf s ! n)) [0..<2 ^ L]\<rparr>)"
  using assms by (simp add: dft2_def mix_out_def size_ok_pow2 reindex_copy_brev mix_brev)

lemma idft2_dft_sum:
  assumes "0 < L" and "length (in_buf s) = 2 ^ L" and "length (out_buf s) = 2 ^ L"
  shows "idft2 (2 ^ L) s =
     Some (s\<lparr>out_buf := map (dft_sum 1 (2 ^ L) (\<lambda>n. in_buf s ! n)) [0..<2 ^ L]\<rparr>)"
  using assms by (simp add: idft2_def mix_out_def size_ok_pow2 reindex_copy_brev mix_brev)



section \<open>Rounding in the instance for double\<close>


















section \<open>The transform is the discrete Fourier transform\<close>









section \<open>Forward and inverse transform\<close>










section \<open>The twiddle tables\<close>




section \<open>In-place and out-of-place transforms\<close>

text \<open>
  Claim C7. For every sequence \<open>x\<close> of length \<open>N = 2 ^ L > 1\<close>, the in-place transform
  (\<open>dft\<close> or \<open>idft\<close>) of \<open>x\<close> gives the same output sequence as the corresponding
  out-of-place transform with input \<open>x\<close>, whatever the output array held before; the
  reindexing by swapping and the reindexing by copying give the same sequence. All of
  them return a result.
\<close>

theorem inplace_outofplace_same:
  assumes "0 < L" and "length x = 2 ^ L" and "length out = 2 ^ L"
  shows "map_option out_buf (dft2 (2 ^ L) \<lparr>in_buf = x, out_buf = out\<rparr>) = dft (2 ^ L) x \<and>
         map_option out_buf (idft2 (2 ^ L) \<lparr>in_buf = x, out_buf = out\<rparr>) = idft (2 ^ L) x \<and>
         map_option out_buf (reindex_copy (2 ^ L) \<lparr>in_buf = x, out_buf = out\<rparr>) = reindex (2 ^ L) x \<and>
         dft (2 ^ L) x \<noteq> None \<and> idft (2 ^ L) x \<noteq> None \<and> reindex (2 ^ L) x \<noteq> None"
  using assms
  by (simp add: dft2_dft_sum idft2_dft_sum dft_dft_sum idft_dft_sum reindex_copy_brev reindex_brev)

theorem inplace_outofplace_same_witness:
  "(0::nat) < 2 \<and> length [1, 2, 3, 4::complex] = 2 ^ 2 \<and> length [0, 0, 0, 0::complex] = 2 ^ 2 \<and>
   map_option out_buf (dft2 (2 ^ 2) \<lparr>in_buf = [1, 2, 3, 4], out_buf = [0, 0, 0, 0]\<rparr>) =
     dft (2 ^ 2) [1, 2, 3, 4] \<and>
   map_option out_buf (reindex_copy (2 ^ 2) \<lparr>in_buf = [1, 2, 3, 4], out_buf = [0, 0, 0, 0]\<rparr>) =
     reindex (2 ^ 2) [1, 2, 3, 4::complex] \<and>
   dft (2 ^ 2) [1, 2, 3, 4] \<noteq> None"
  using inplace_outofplace_same [of 2 "[1, 2, 3, 4]" "[0, 0, 0, 0]"] by simp

section \<open>The out-of-place transforms keep their input\<close>

text \<open>
  Claim C8. For every valid input, the out-of-place entry points \<open>dft(in, out)\<close> and
  \<open>idft(in, out)\<close> return with the input array unchanged: the final state is the initial
  state with a new output array. The two arrays are distinct objects, as two fields of
  the state.
\<close>

theorem outofplace_input_unchanged:
  assumes "0 < L" and "length (in_buf s) = 2 ^ L" and "length (out_buf s) = 2 ^ L"
  shows "(\<exists>s'. dft2 (2 ^ L) s = Some s' \<and> in_buf s' = in_buf s \<and> s' = s\<lparr>out_buf := out_buf s'\<rparr>) \<and>
         (\<exists>s'. idft2 (2 ^ L) s = Some s' \<and> in_buf s' = in_buf s \<and> s' = s\<lparr>out_buf := out_buf s'\<rparr>)"
  using assms by (simp add: dft2_dft_sum idft2_dft_sum)

theorem outofplace_input_unchanged_witness:
  "(0::nat) < 1 \<and> length (in_buf \<lparr>in_buf = [1, 2::complex], out_buf = [0, 0]\<rparr>) = 2 ^ 1 \<and>
   length (out_buf \<lparr>in_buf = [1, 2::complex], out_buf = [0, 0]\<rparr>) = 2 ^ 1 \<and>
   (\<exists>s'. dft2 (2 ^ 1) \<lparr>in_buf = [1, 2], out_buf = [0, 0]\<rparr> = Some s' \<and> in_buf s' = [1, 2])"
  using outofplace_input_unchanged [of 1 "\<lparr>in_buf = [1, 2], out_buf = [0, 0]\<rparr>"] by auto

section \<open>Array accesses stay in range\<close>

lemma brev_inj_on: "inj_on (brev L) {0..<2 ^ L}"
  by (rule inj_on_inverseI [where g = "brev L"]) (simp add: brev_invol)

lemma bit_pattern_distinct:
  assumes "0 < L"
  shows "\<exists>pat. bit_pattern (2 ^ L) = Some pat \<and> distinct pat"
proof -
  have "(2::nat) ^ ((L - 1) div 2) \<le> 2 ^ L" by (rule power_increasing) simp_all
  then have "inj_on (brev L) (set [0..<2 ^ ((L - 1) div 2)])"
    by (intro inj_on_subset [OF brev_inj_on]) auto
  then have "distinct (map (brev L) [0..<2 ^ ((L - 1) div 2)])"
    by (simp add: distinct_map)
  then show ?thesis using bit_pattern_pow2 [OF assms] by simp
qed

lemma bit_pattern_bounds:
  assumes "0 < L"
  shows "\<exists>pat. bit_pattern (2 ^ L) = Some pat \<and>
     (\<forall>j<length pat. \<forall>k<length pat.
        j + pat ! k + (if ispow4 (2 ^ L) then 3 else 1) * length pat < 2 ^ L)"
  using assms
proof (cases L rule: even_odd_split)
  case (1 p)
  have N: "4 * 2 ^ p * 2 ^ p = (2::nat) ^ L" using pow2_split [OF 1(2)] by simp
  have "j + pattern_of 4 (2 ^ p) (brev p) ! k + 3 * 2 ^ p < 2 ^ L"
    if "j < 2 ^ p" "k < 2 ^ p" for j k
  proof -
    have "idx 4 (2 ^ p) j 3 (brev p k) < 4 * 2 ^ p * 2 ^ p"
      by (rule idx_lt [OF that(1)]) (simp_all add: brev_lt)
    then have "idx 4 (2 ^ p) j 3 (brev p k) < 2 ^ L" unfolding N .
    then show ?thesis using that by (simp add: idx_def add_ac mult_ac)
  qed
  moreover have "ispow4 (2 ^ L)" using 1(1) assms by (simp add: ispow4_pow2)
  ultimately show ?thesis using bit_pattern_even [OF 1(2)] by simp
next
  case (2 p)
  have N: "2 * 2 ^ p * 2 ^ p = (2::nat) ^ L" using pow2_split [OF 2(2)] by simp
  have "j + pattern_of 2 (2 ^ p) (brev p) ! k + 2 ^ p < 2 ^ L"
    if "j < 2 ^ p" "k < 2 ^ p" for j k
  proof -
    have "idx 2 (2 ^ p) j 1 (brev p k) < 2 * 2 ^ p * 2 ^ p"
      by (rule idx_lt [OF that(1)]) (simp_all add: brev_lt)
    then have "idx 2 (2 ^ p) j 1 (brev p k) < 2 ^ L" unfolding N .
    then show ?thesis using that by (simp add: idx_def add_ac mult_ac)
  qed
  moreover have "\<not> ispow4 (2 ^ L)" using 2(1) assms by (simp add: ispow4_pow2)
  ultimately show ?thesis using bit_pattern_odd [OF 2(2)] by simp
qed

text \<open>
  The checks of the model are effective: an array shorter than the transform length is
  accessed out of range, and the reindexing has no result.
\<close>

lemma reindex_short_array: "reindex (2 ^ 2) [1, 2::nat] = None"
proof -
  have "bit_pattern (2 ^ 2) = Some (map (brev 2) [0..<2 ^ ((2 - 1) div 2)])"
    by (rule bit_pattern_pow2) simp
  then have p: "bit_pattern (2 ^ 2) = Some [0]" by simp
  have "ispow4 (2 ^ 2)" using ispow4_pow2 [of 2] by simp
  moreover have "for_loop 0 1 (reindex_row4 [0]) [1, 2::nat] = None"
    by (simp add: for_loop.simps [of 0] reindex_row4_def std_swap_def rd_def)
  ultimately show ?thesis using p by (simp add: reindex_def)
qed

text \<open>
  Claim C10. For every length \<open>N = 2 ^ L > 1\<close> the entries of the bit-reversal pattern are
  distinct, every index \<open>j + pattern[k]\<close> plus the largest multiple of the pattern size
  that the reindexing adds (three times for a power of four, once otherwise) is below
  \<open>N\<close>, and the four entry points return a result: as every access of the model is
  checked, no access of the reindexing or of the butterfly is out of range.
\<close>

theorem accesses_in_range:
  assumes "0 < L" and "length x = 2 ^ L" and "length out = 2 ^ L"
  shows "(\<exists>pat. bit_pattern (2 ^ L) = Some pat \<and> distinct pat \<and>
            (\<forall>j<length pat. \<forall>k<length pat.
               j + pat ! k + (if ispow4 (2 ^ L) then 3 else 1) * length pat < 2 ^ L)) \<and>
         dft (2 ^ L) x \<noteq> None \<and> idft (2 ^ L) x \<noteq> None \<and>
         dft2 (2 ^ L) \<lparr>in_buf = x, out_buf = out\<rparr> \<noteq> None \<and>
         idft2 (2 ^ L) \<lparr>in_buf = x, out_buf = out\<rparr> \<noteq> None"
proof -
  from bit_pattern_distinct [OF assms(1)] bit_pattern_bounds [OF assms(1)]
  have "\<exists>pat. bit_pattern (2 ^ L) = Some pat \<and> distinct pat \<and>
            (\<forall>j<length pat. \<forall>k<length pat.
               j + pat ! k + (if ispow4 (2 ^ L) then 3 else 1) * length pat < 2 ^ L)"
    by auto
  then show ?thesis
    using assms by (simp add: dft2_dft_sum idft2_dft_sum dft_dft_sum idft_dft_sum)
qed

lemma bit_pattern_8: "bit_pattern (2 ^ 3) = Some [0, 4]"
proof -
  have "bit_pattern (2 ^ 3) = Some (map (brev 3) [0..<2 ^ ((3 - 1) div 2)])"
    by (rule bit_pattern_pow2) simp
  moreover have "[0..<2 ^ ((3 - 1) div 2)] = [0, Suc 0]" by (simp add: upt_2)
  moreover have "brev 3 (Suc 0) = 4" by (simp add: eval_nat_numeral brev.simps)
  ultimately show ?thesis by simp
qed

theorem accesses_in_range_witness:
  "(0::nat) < 3 \<and> length [1, 2, 3, 4, 5, 6, 7, 8::complex] = 2 ^ 3 \<and>
   length [0, 0, 0, 0, 0, 0, 0, 0::complex] = 2 ^ 3 \<and>
   bit_pattern (2 ^ 3) = Some [0, 4] \<and> distinct [0, 4::nat] \<and>
   (1::nat) < length [0, 4::nat] \<and>
   1 + [0, 4::nat] ! 1 + (if ispow4 (2 ^ 3) then 3 else 1) * length [0, 4::nat] < 2 ^ 3 \<and>
   dft (2 ^ 3) [1, 2, 3, 4, 5, 6, 7, 8] \<noteq> None \<and>
   dft2 (2 ^ 3) \<lparr>in_buf = [1, 2, 3, 4, 5, 6, 7, 8], out_buf = [0, 0, 0, 0, 0, 0, 0, 0]\<rparr> \<noteq> None"
  using accesses_in_range [of 3 "[1, 2, 3, 4, 5, 6, 7, 8]" "[0, 0, 0, 0, 0, 0, 0, 0]"]
    bit_pattern_8 ispow4_pow2 [of 3]
  by simp

end
